theory Spec2Isabelle
  imports Main "HOL-Library.Word"
begin

unbundle bit_operations_syntax

section \<open>Buffers, JavaScript numbers and errors\<close>

text \<open>
  A Node \<open>Buffer\<close> is a list of bytes. JavaScript numbers that hold integers are
  modelled as \<open>int\<close> (exact below \<open>2 ^ 53\<close>, which every quantity of this protocol
  is). A thrown exception or a rejected promise is the \<open>Inl\<close> branch of a sum.
\<close>

type_synonym byte = "8 word"
type_synonym buffer = "byte list"

datatype js_error = RangeError | TypeError | Error string

definition ebind :: "js_error + 'a \<Rightarrow> ('a \<Rightarrow> js_error + 'b) \<Rightarrow> js_error + 'b" where
  "ebind m f = (case m of Inl e \<Rightarrow> Inl e | Inr x \<Rightarrow> f x)"

text \<open>The 32-bit integer operators of JavaScript: operands pass through ToInt32.\<close>

definition js_bitnot :: "int \<Rightarrow> int" where
  "js_bitnot x = sint (NOT (word_of_int x :: 32 word))"

definition js_bitand :: "int \<Rightarrow> int \<Rightarrow> int" where
  "js_bitand x y = sint ((word_of_int x :: 32 word) AND word_of_int y)"

definition js_bitor :: "int \<Rightarrow> int \<Rightarrow> int" where
  "js_bitor x y = sint ((word_of_int x :: 32 word) OR word_of_int y)"

definition js_shl :: "int \<Rightarrow> nat \<Rightarrow> int" where
  "js_shl x n = sint (push_bit (n mod 32) (word_of_int x :: 32 word))"

text \<open>\<open>x >>> 0\<close>: ToUint32.\<close>

definition js_uint32 :: "int \<Rightarrow> int" where
  "js_uint32 x = x mod 2 ^ 32"

text \<open>
  \<open>buf.writeUInt16LE(value, offset)\<close> and its siblings throw a RangeError when the
  value does not fit or the offset leaves the buffer; the reads throw when the offset
  leaves the buffer.
\<close>

definition writeUInt8 :: "int \<Rightarrow> nat \<Rightarrow> buffer \<Rightarrow> js_error + buffer" where
  "writeUInt8 v off buf =
     (if v < 0 \<or> 255 < v \<or> length buf < off + 1 then Inl RangeError
      else Inr (buf[off := word_of_int v]))"

definition writeUInt16LE :: "int \<Rightarrow> nat \<Rightarrow> buffer \<Rightarrow> js_error + buffer" where
  "writeUInt16LE v off buf =
     (if v < 0 \<or> 65535 < v \<or> length buf < off + 2 then Inl RangeError
      else Inr (buf[off := word_of_int v, off + 1 := word_of_int (v div 256)]))"

definition writeUInt32LE :: "int \<Rightarrow> nat \<Rightarrow> buffer \<Rightarrow> js_error + buffer" where
  "writeUInt32LE v off buf =
     (if v < 0 \<or> 4294967295 < v \<or> length buf < off + 4 then Inl RangeError
      else Inr (buf[off := word_of_int v, off + 1 := word_of_int (v div 256),
                    off + 2 := word_of_int (v div 65536),
                    off + 3 := word_of_int (v div 16777216)]))"

definition readUInt8 :: "buffer \<Rightarrow> nat \<Rightarrow> js_error + int" where
  "readUInt8 buf off =
     (if length buf < off + 1 then Inl RangeError else Inr (uint (buf ! off)))"

definition readUInt16LE :: "buffer \<Rightarrow> nat \<Rightarrow> js_error + int" where
  "readUInt16LE buf off =
     (if length buf < off + 2 then Inl RangeError
      else Inr (uint (buf ! off) + 256 * uint (buf ! (off + 1))))"

definition readUInt32LE :: "buffer \<Rightarrow> nat \<Rightarrow> js_error + int" where
  "readUInt32LE buf off =
     (if length buf < off + 4 then Inl RangeError
      else Inr (uint (buf ! off) + 256 * uint (buf ! (off + 1))
                + 65536 * uint (buf ! (off + 2)) + 16777216 * uint (buf ! (off + 3))))"

text \<open>\<open>buf.slice(start, end)\<close> for non-negative bounds: clamped, never throws.\<close>

definition buf_slice :: "buffer \<Rightarrow> nat \<Rightarrow> nat \<Rightarrow> buffer" where
  "buf_slice buf s e = take (e - s) (drop s buf)"

section \<open>Protocol constants\<close>

text \<open>
  Modelled from the spec: the constants module (\<open>./const\<close>, \<open>./constants\<close>) is not
  among the sources; the values are those of the specification's list of wire
  constants and command codes.
\<close>

definition USHRT_MAX :: int where "USHRT_MAX = 65535"
definition CMD_CONNECT :: int where "CMD_CONNECT = 1000"
definition CMD_EXIT :: int where "CMD_EXIT = 1001"
definition CMD_AUTH :: int where "CMD_AUTH = 1102"
definition CMD_PREPARE_DATA :: int where "CMD_PREPARE_DATA = 1500"
definition CMD_DATA :: int where "CMD_DATA = 1501"
definition CMD_FREE_DATA :: int where "CMD_FREE_DATA = 1502"
definition CMD_PREPARE_BUFFER :: int where "CMD_PREPARE_BUFFER = 1503"
definition CMD_READ_BUFFER :: int where "CMD_READ_BUFFER = 1504"
definition CMD_USER_WRQ :: int where "CMD_USER_WRQ = 8"
definition CMD_USERTEMP_RRQ :: int where "CMD_USERTEMP_RRQ = 9"
definition CMD_REFRESHDATA :: int where "CMD_REFRESHDATA = 1013"
definition CMD_GET_FREE_SIZES :: int where "CMD_GET_FREE_SIZES = 50"
definition CMD_ACK_OK :: int where "CMD_ACK_OK = 2000"
definition CMD_ACK_ERROR :: int where "CMD_ACK_ERROR = 2001"
definition CMD_ACK_UNAUTH :: int where "CMD_ACK_UNAUTH = 2005"
definition FCT_USER :: int where "FCT_USER = 5"
definition USER_DEFAULT :: int where "USER_DEFAULT = 0"
definition USER_ADMIN :: int where "USER_ADMIN = 14"
definition MACHINE_PREPARE_DATA_1 :: int where "MACHINE_PREPARE_DATA_1 = 0x5050"
definition MACHINE_PREPARE_DATA_2 :: int where "MACHINE_PREPARE_DATA_2 = 0x8217"

section \<open>Codec of the Node client (utils.js)\<close>

subsection \<open>createChecksum\<close>

text \<open>The \<open>while (remaining > 1)\<close> loop: one 16-bit little-endian word per round.\<close>

fun checksum_words :: "int \<Rightarrow> buffer \<Rightarrow> int" where
  "checksum_words checksum (a # b # rest) =
     (let c = checksum + (uint a + js_shl (uint b) 8)
      in checksum_words (if c > USHRT_MAX then c - USHRT_MAX else c) rest)"
| "checksum_words checksum rest = checksum"

text \<open>The \<open>while (checksum > USHRT_MAX) checksum -= USHRT_MAX\<close> loop.\<close>

function fold_ushrt :: "int \<Rightarrow> int" where
  "fold_ushrt checksum =
     (if checksum > 65535 then fold_ushrt (checksum - 65535) else checksum)"
  by pat_completeness auto
termination
  by (relation "measure nat") auto

definition createChecksum :: "buffer \<Rightarrow> int" where
  "createChecksum buf =
     (let c1 = checksum_words 0 buf;
          c2 = (if odd (length buf) then c1 + uint (last buf) else c1);
          c3 = fold_ushrt c2
      in js_bitand (js_bitnot c3) 65535)"

subsection \<open>createHeader and readHeader\<close>

definition next_reply :: "int \<Rightarrow> int" where
  "next_reply replyId =
     (let nextReplyId = replyId + 1
      in if nextReplyId \<ge> USHRT_MAX then nextReplyId - USHRT_MAX else nextReplyId)"

definition createHeader :: "int \<Rightarrow> buffer \<Rightarrow> int \<Rightarrow> int \<Rightarrow> js_error + buffer" where
  "createHeader command commandString sessionId replyId =
     ebind (writeUInt16LE command 0 (replicate 8 0)) (\<lambda>h1.
     ebind (writeUInt16LE 0 2 h1) (\<lambda>h2.
     ebind (writeUInt16LE sessionId 4 h2) (\<lambda>h3.
     ebind (writeUInt16LE (next_reply replyId) 6 h3) (\<lambda>h4.
       let merged = h4 @ commandString;
           checksum = createChecksum merged
       in ebind (writeUInt16LE checksum 2 h4) (\<lambda>header.
            Inr (header @ commandString))))))"

record header =
  h_command :: int
  h_checksum :: int
  h_session :: int
  h_reply :: int

definition readHeader :: "buffer \<Rightarrow> js_error + header" where
  "readHeader buf =
     ebind (readUInt16LE buf 0) (\<lambda>c.
     ebind (readUInt16LE buf 2) (\<lambda>k.
     ebind (readUInt16LE buf 4) (\<lambda>s.
     ebind (readUInt16LE buf 6) (\<lambda>r.
       Inr \<lparr>h_command = c, h_checksum = k, h_session = s, h_reply = r\<rparr>))))"

section \<open>Codec of the second client (class ZK of the pyzk port)\<close>

subsection \<open>ZK.__create_checksum\<close>

fun zk_checksum_words :: "int \<Rightarrow> buffer \<Rightarrow> int" where
  "zk_checksum_words checksum (a # b # rest) =
     (let v = js_bitor (uint a) (js_shl (uint b) 8);
          c = checksum + v
      in zk_checksum_words (if c > USHRT_MAX then c - USHRT_MAX else c) rest)"
| "zk_checksum_words checksum rest = checksum"

text \<open>The \<open>while (checksum < 0) checksum += USHRT_MAX\<close> loop.\<close>

function lift_ushrt :: "int \<Rightarrow> int" where
  "lift_ushrt checksum =
     (if checksum < 0 then lift_ushrt (checksum + 65535) else checksum)"
  by pat_completeness auto
termination
  by (relation "measure (\<lambda>c. nat (- c))") auto

definition zk_create_checksum :: "buffer \<Rightarrow> int" where
  "zk_create_checksum buf =
     (let c1 = zk_checksum_words 0 buf;
          c2 = (if odd (length buf) then c1 + uint (last buf) else c1);
          c3 = fold_ushrt c2;
          c4 = lift_ushrt (js_bitnot c3)
      in js_bitand c4 65535)"

subsection \<open>ZK.__create_header\<close>

text \<open>\<open>commandString.copy(payload, 8)\<close> into a zero-filled buffer of the exact size.\<close>

definition copy_at8 :: "buffer \<Rightarrow> buffer \<Rightarrow> buffer" where
  "copy_at8 commandString target = take 8 target @ commandString"

definition zk_create_header :: "int \<Rightarrow> buffer \<Rightarrow> int \<Rightarrow> int \<Rightarrow> js_error + buffer" where
  "zk_create_header command commandString sessionId replyId =
     ebind (writeUInt16LE command 0 (replicate (8 + length commandString) 0)) (\<lambda>p1.
     ebind (writeUInt16LE 0 2 p1) (\<lambda>p2.
     ebind (writeUInt16LE sessionId 4 p2) (\<lambda>p3.
     ebind (writeUInt16LE replyId 6 p3) (\<lambda>p4.
       let payload = copy_at8 commandString p4;
           checksum = zk_create_checksum payload;
           nextReply = next_reply replyId
       in ebind (writeUInt16LE command 0 (replicate (8 + length commandString) 0)) (\<lambda>h1.
          ebind (writeUInt16LE checksum 2 h1) (\<lambda>h2.
          ebind (writeUInt16LE sessionId 4 h2) (\<lambda>h3.
          ebind (writeUInt16LE nextReply 6 h3) (\<lambda>h4.
            Inr (copy_at8 commandString h4)))))))))"

subsection \<open>makeCommKey (utils.js) and makeCommKey (second client)\<close>

definition js_bitxor :: "int \<Rightarrow> int \<Rightarrow> int" where
  "js_bitxor x y = sint ((word_of_int x :: 32 word) XOR word_of_int y)"

text \<open>\<open>Buffer.from(array)\<close>: every entry is stored modulo 256.\<close>

definition buffer_from :: "int list \<Rightarrow> buffer" where
  "buffer_from xs = map word_of_int xs"

text \<open>
  The \<open>for (let i = 0; i < 32; i += 1)\<close> loop of \<open>makeCommKey\<close>; the first argument
  counts the rounds that remain.
\<close>

fun commkey_loop :: "nat \<Rightarrow> nat \<Rightarrow> int \<Rightarrow> int \<Rightarrow> int" where
  "commkey_loop 0 i pass k = k"
| "commkey_loop (Suc n) i pass k =
     commkey_loop n (i + 1) pass
       (if js_bitand pass (js_shl 1 i) \<noteq> 0 then js_bitor (js_shl k 1) 1 else js_shl k 1)"

definition makeCommKey :: "int \<Rightarrow> int \<Rightarrow> int \<Rightarrow> js_error + buffer" where
  "makeCommKey key sessionId ticks =
     (let pass = key; sid = sessionId;
          k = commkey_loop 32 0 pass 0 + sid
      in ebind (writeUInt32LE (js_uint32 k) 0 (replicate 4 0)) (\<lambda>tmp.
           let xored = buffer_from
                 [js_bitxor (uint (tmp ! 0)) (of_char CHR ''Z''),
                  js_bitxor (uint (tmp ! 1)) (of_char CHR ''K''),
                  js_bitxor (uint (tmp ! 2)) (of_char CHR ''S''),
                  js_bitxor (uint (tmp ! 3)) (of_char CHR ''O'')]
           in ebind (readUInt16LE xored 2) (\<lambda>hi.
              ebind (writeUInt16LE hi 0 (replicate 4 0)) (\<lambda>s1.
              ebind (readUInt16LE xored 0) (\<lambda>lo.
              ebind (writeUInt16LE lo 2 s1) (\<lambda>swapped.
                let B = js_bitand 255 ticks
                in Inr (buffer_from
                     [js_bitxor (uint (swapped ! 0)) B,
                      js_bitxor (uint (swapped ! 1)) B,
                      B,
                      js_bitxor (uint (swapped ! 3)) B])))))))"

definition zk_makeCommKey :: "int \<Rightarrow> int \<Rightarrow> int \<Rightarrow> js_error + buffer" where
  "zk_makeCommKey key sessionId ticks =
     (let keyVal = key;
          k = commkey_loop 32 0 keyVal 0 + sessionId
      in ebind (writeUInt32LE (js_uint32 k) 0 (replicate 4 0)) (\<lambda>tmp.
           let arr = buffer_from
                 [js_bitxor (uint (tmp ! 0)) (of_char CHR ''Z''),
                  js_bitxor (uint (tmp ! 1)) (of_char CHR ''K''),
                  js_bitxor (uint (tmp ! 2)) (of_char CHR ''S''),
                  js_bitxor (uint (tmp ! 3)) (of_char CHR ''O'')]
           in ebind (readUInt16LE arr 2) (\<lambda>hi.
              ebind (writeUInt16LE hi 0 (replicate 4 0)) (\<lambda>s1.
              ebind (readUInt16LE arr 0) (\<lambda>lo.
              ebind (writeUInt16LE lo 2 s1) (\<lambda>swap.
                let B = js_bitand ticks 255
                in Inr (buffer_from
                     [js_bitxor (uint (swap ! 0)) B,
                      js_bitxor (uint (swap ! 1)) B,
                      B,
                      js_bitxor (uint (swap ! 3)) B])))))))"

text \<open>The reference algorithm, step by step as the specification words it.\<close>

definition commkey_reference :: "int \<Rightarrow> int \<Rightarrow> int \<Rightarrow> buffer" where
  "commkey_reference P S t =
     (let K1 = word_reverse (word_of_int P :: 32 word);
          K2 = K1 + word_of_int S;
          b0 = (ucast K2 :: byte) XOR of_char CHR ''Z'';
          b1 = (ucast (drop_bit 8 K2) :: byte) XOR of_char CHR ''K'';
          b2 = (ucast (drop_bit 16 K2) :: byte) XOR of_char CHR ''S'';
          b3 = (ucast (drop_bit 24 K2) :: byte) XOR of_char CHR ''O'';
          swapped = [b2, b3, b0, b1];
          T = (word_of_int t :: byte) AND 255
      in [swapped ! 0 XOR T, swapped ! 1 XOR T, T, swapped ! 3 XOR T])"

section \<open>The Node client (zk.js): transport, session and operations\<close>

subsection \<open>Signed buffer accessors\<close>

definition writeInt8 :: "int \<Rightarrow> nat \<Rightarrow> buffer \<Rightarrow> js_error + buffer" where
  "writeInt8 v off buf =
     (if v < - 128 \<or> 127 < v \<or> length buf < off + 1 then Inl RangeError
      else Inr (buf[off := word_of_int v]))"

definition writeInt16LE :: "int \<Rightarrow> nat \<Rightarrow> buffer \<Rightarrow> js_error + buffer" where
  "writeInt16LE v off buf =
     (if v < - 32768 \<or> 32767 < v \<or> length buf < off + 2 then Inl RangeError
      else Inr (buf[off := word_of_int v, off + 1 := word_of_int (v div 256)]))"

definition writeInt32LE :: "int \<Rightarrow> nat \<Rightarrow> buffer \<Rightarrow> js_error + buffer" where
  "writeInt32LE v off buf =
     (if v < - 2147483648 \<or> 2147483647 < v \<or> length buf < off + 4 then Inl RangeError
      else Inr (buf[off := word_of_int v, off + 1 := word_of_int (v div 256),
                    off + 2 := word_of_int (v div 65536),
                    off + 3 := word_of_int (v div 16777216)]))"

definition readInt32LE :: "buffer \<Rightarrow> nat \<Rightarrow> js_error + int" where
  "readInt32LE buf off =
     ebind (readUInt32LE buf off) (\<lambda>u. Inr (if u \<ge> 2147483648 then u - 4294967296 else u))"

subsection \<open>State of a client and of its network\<close>

text \<open>
  One record holds the fields of the \<open>ZK\<close> object that the operations read or write and
  the network around it. \<open>socket\<close> tells whether \<open>this.socket\<close> is set. The network is a
  script: \<open>dials\<close> gives the outcome of each socket creation, \<open>script\<close> what happens
  after each packet handed to the socket (the chunks or datagrams that arrive before the
  timeout, or a socket error), and \<open>sent\<close> records every packet handed to the socket.
  The fields \<open>ip\<close>, \<open>port\<close>, \<open>timeout\<close> and \<open>verbose\<close> do not influence the modelled
  behaviour.
\<close>

type_synonym jsstring = "nat list"

datatype net_event = Arrive "buffer list" | SocketError

record request =
  rq_command :: int
  rq_payload :: buffer
  rq_wire :: buffer

record zk =
  tcp :: bool
  password :: int
  sessionId :: int
  replyId :: int
  socket :: bool
  isConnected :: bool
  usersCount :: int
  recordsCount :: int
  userPacketSize :: int
  nextUid :: int
  nextUserId :: jsstring
  sent :: "request list"
  script :: "net_event list"
  dials :: "bool list"
  opened :: nat
  closed :: nat

type_synonym ('a, 's) io = "'s \<Rightarrow> (js_error + 'a) \<times> 's"

definition io_return :: "'a \<Rightarrow> ('a, 's) io" where
  "io_return x = (\<lambda>s. (Inr x, s))"

definition io_throw :: "js_error \<Rightarrow> ('a, 's) io" where
  "io_throw e = (\<lambda>s. (Inl e, s))"

definition io_lift :: "js_error + 'a \<Rightarrow> ('a, 's) io" where
  "io_lift r = (\<lambda>s. (r, s))"

definition io_bind :: "('a, 's) io \<Rightarrow> ('a \<Rightarrow> ('b, 's) io) \<Rightarrow> ('b, 's) io" where
  "io_bind m f = (\<lambda>s. case m s of (Inl e, s') \<Rightarrow> (Inl e, s') | (Inr x, s') \<Rightarrow> f x s')"

subsection \<open>Sockets\<close>

definition closeSocket :: "(unit, zk) io" where
  "closeSocket s =
     (if \<not> socket s then (Inr (), s)
      else (Inr (), s\<lparr>socket := False, closed := closed s + 1\<rparr>))"

text \<open>\<open>_createTcpSocket\<close> and \<open>_createUdpSocket\<close>: the next dial outcome decides.\<close>

definition dialSocket :: "(unit, zk) io" where
  "dialSocket s =
     (case dials s of
        [] \<Rightarrow> (Inl (Error ''socket timeout''), s)
      | ok # rest \<Rightarrow>
          if ok then (Inr (), s\<lparr>dials := rest, socket := True, opened := opened s + 1\<rparr>)
          else (Inl (Error ''socket error''), s\<lparr>dials := rest\<rparr>))"

definition createSocket :: "(unit, zk) io" where
  "createSocket =
     io_bind (\<lambda>s. if socket s then closeSocket s else (Inr (), s)) (\<lambda>_. dialSocket)"

subsection \<open>Transport: \<open>_sendUdp\<close>, \<open>_sendTcp\<close>\<close>

definition sendUdp :: "buffer \<Rightarrow> (buffer, zk) io" where
  "sendUdp packet s =
     (case script s of
        [] \<Rightarrow> (Inl (Error ''UDP response timeout''), s)
      | SocketError # rest \<Rightarrow> (Inl (Error ''socket error''), s\<lparr>script := rest\<rparr>)
      | Arrive [] # rest \<Rightarrow> (Inl (Error ''UDP response timeout''), s\<lparr>script := rest\<rparr>)
      | Arrive (msg # _) # rest \<Rightarrow> (Inr msg, s\<lparr>script := rest\<rparr>))"

definition createTcpTop :: "buffer \<Rightarrow> js_error + buffer" where
  "createTcpTop packet =
     ebind (writeUInt16LE MACHINE_PREPARE_DATA_1 0 (replicate 8 0)) (\<lambda>t1.
     ebind (writeUInt16LE MACHINE_PREPARE_DATA_2 2 t1) (\<lambda>t2.
     ebind (writeUInt32LE (int (length packet)) 4 t2) (\<lambda>tp.
       Inr (tp @ packet))))"

definition validateTcpTop :: "buffer \<Rightarrow> bool" where
  "validateTcpTop packet =
     (if length packet < 8 then False
      else readUInt16LE packet 0 = Inr MACHINE_PREPARE_DATA_1 \<and>
           readUInt16LE packet 2 = Inr MACHINE_PREPARE_DATA_2)"

text \<open>
  The \<open>onData\<close> handler of \<open>_sendTcp\<close>, run over the chunks that arrive; when they are
  used up before the frame is complete, the timer fires.
\<close>

fun tcp_onData :: "buffer \<Rightarrow> int option \<Rightarrow> buffer list \<Rightarrow> js_error + buffer" where
  "tcp_onData merged0 target [] = Inl (Error ''TCP response timeout'')"
| "tcp_onData merged0 target (chunk # rest) =
     (let merged = merged0 @ chunk;
          total = int (length merged);
          target1 = (if target = None \<and> length merged \<ge> 8
                     then (case readUInt32LE merged 4 of Inr n \<Rightarrow> Some (8 + n) | Inl _ \<Rightarrow> None)
                     else target)
      in case target1 of
           None \<Rightarrow> tcp_onData merged target1 rest
         | Some tg \<Rightarrow>
             if total \<ge> tg then
               (if \<not> validateTcpTop merged then Inl (Error ''TCP packet invalid'')
                else ebind (readUInt32LE merged 4) (\<lambda>size.
                       Inr (buf_slice merged 8 (8 + nat size))))
             else tcp_onData merged target1 rest)"

definition sendTcp :: "buffer \<Rightarrow> (buffer, zk) io" where
  "sendTcp packet s =
     (case createTcpTop packet of
        Inl e \<Rightarrow> (Inl e, s)
      | Inr tp \<Rightarrow>
         (case script s of
            [] \<Rightarrow> (Inl (Error ''TCP response timeout''), s)
          | SocketError # rest \<Rightarrow> (Inl (Error ''socket error''), s\<lparr>script := rest\<rparr>)
          | Arrive chunks # rest \<Rightarrow> (tcp_onData [] None chunks, s\<lparr>script := rest\<rparr>)))"

subsection \<open>\<open>_sendCommand\<close>\<close>

record response =
  r_status :: bool
  r_code :: int
  r_header :: header
  r_data :: buffer

definition sendCommand :: "int \<Rightarrow> buffer \<Rightarrow> int \<Rightarrow> (response, zk) io" where
  "sendCommand command commandString responseSize s =
     (if command \<noteq> CMD_CONNECT \<and> command \<noteq> CMD_AUTH \<and> \<not> isConnected s
      then (Inl (Error ''Not connected''), s)
      else case createHeader command commandString (sessionId s) (replyId s) of
        Inl e \<Rightarrow> (Inl e, s)
      | Inr packet \<Rightarrow>
          if \<not> socket s then (Inl TypeError, s)
          else
            let s1 = s\<lparr>sent := sent s @
                       [\<lparr>rq_command = command, rq_payload = commandString, rq_wire = packet\<rparr>]\<rparr>
            in case (if tcp s1 then sendTcp packet s1 else sendUdp packet s1) of
                 (Inl e, s2) \<Rightarrow> (Inl e, s2)
               | (Inr raw, s2) \<Rightarrow>
                   (case readHeader (buf_slice raw 0 8) of
                      Inl e \<Rightarrow> (Inl e, s2)
                    | Inr hdr \<Rightarrow>
                        let s3 = s2\<lparr>sessionId := h_session hdr, replyId := h_reply hdr\<rparr>;
                            data = drop 8 raw;
                            code = h_command hdr;
                            status = (code \<in> set [CMD_ACK_OK, CMD_PREPARE_DATA, CMD_DATA])
                        in (Inr \<lparr>r_status = status, r_code = code, r_header = hdr,
                                 r_data = data\<rparr>, s3)))"

subsection \<open>connect\<close>

definition connect :: "(unit, zk) io" where
  "connect s =
     (if isConnected s then (Inr (), s)
      else io_bind createSocket (\<lambda>_ s1.
        io_bind (sendCommand CMD_CONNECT [] 8) (\<lambda>response s2.
          let s3 = s2\<lparr>sessionId := h_session (r_header response)\<rparr>
          in io_bind
               (if r_code response = CMD_ACK_UNAUTH
                then io_bind (io_lift (makeCommKey (password s3) (sessionId s3) 50))
                       (\<lambda>authPayload. sendCommand CMD_AUTH authPayload 8)
                else io_return response)
               (\<lambda>response s4.
                  if \<not> r_status response \<and> r_code response \<noteq> CMD_ACK_OK
                  then (Inl (Error ''Invalid response while connecting''), s4)
                  else (Inr (), s4\<lparr>isConnected := True\<rparr>)) s3)
          (s1\<lparr>sessionId := 0, replyId := USHRT_MAX - 1\<rparr>)) s)"

subsection \<open>Bulk read: readSizes, readWithBuffer, \<open>_readChunk\<close>\<close>

text \<open>The loop \<open>for (i = 0; i < 20; i += 1) fields.push(data.readInt32LE(i * 4))\<close>.\<close>

fun readFields :: "buffer \<Rightarrow> nat \<Rightarrow> nat \<Rightarrow> js_error + int list" where
  "readFields bytes i 0 = Inr []"
| "readFields bytes i (Suc n) =
     ebind (readInt32LE bytes (i * 4)) (\<lambda>v.
     ebind (readFields bytes (i + 1) n) (\<lambda>vs. Inr (v # vs)))"

definition readSizes :: "(bool, zk) io" where
  "readSizes =
     io_bind (sendCommand CMD_GET_FREE_SIZES [] 1024) (\<lambda>res s.
       if \<not> r_status res then (Inl (Error ''Cannot read sizes''), s)
       else
         let bytes = r_data res
         in if length bytes \<ge> 80 then
              (case readFields bytes 0 20 of
                 Inl e \<Rightarrow> (Inl e, s)
               | Inr flds \<Rightarrow>
                   (Inr True, s\<lparr>usersCount := flds ! 4, recordsCount := flds ! 8,
                                userPacketSize := (if userPacketSize s = 0 then 28
                                                   else userPacketSize s)\<rparr>))
            else (Inr True, s))"

definition readChunk :: "int \<Rightarrow> int \<Rightarrow> (buffer, zk) io" where
  "readChunk start sz s =
     (case ebind (writeInt32LE start 0 (replicate 8 0)) (writeInt32LE sz 4) of
        Inl e \<Rightarrow> (Inl e, s)
      | Inr payload \<Rightarrow>
          let respSize = (if tcp s then sz + 32 else 1032)
          in io_bind (sendCommand CMD_READ_BUFFER payload respSize) (\<lambda>res s1.
               if \<not> r_status res \<and> r_code res \<noteq> CMD_DATA
               then (Inl (Error ''Cannot read chunk''), s1)
               else (Inr (r_data res), s1)) s)"

text \<open>
  The loop \<open>for (i = 0; i < packets; i += 1)\<close> of readWithBuffer; the first argument
  counts the rounds that remain.
\<close>

fun readChunks :: "nat \<Rightarrow> int \<Rightarrow> int \<Rightarrow> buffer list \<Rightarrow> ((buffer list \<times> int), zk) io" where
  "readChunks 0 maxChunk start chunks = io_return (chunks, start)"
| "readChunks (Suc n) maxChunk start chunks =
     io_bind (readChunk start maxChunk) (\<lambda>chunk.
       readChunks n maxChunk (start + maxChunk) (chunks @ [chunk]))"

record bulk =
  bs_buffer :: buffer
  bs_size :: int

definition prepare_args :: "int \<Rightarrow> int \<Rightarrow> int \<Rightarrow> js_error + buffer" where
  "prepare_args command fct ext =
     ebind (writeInt8 1 0 (replicate 11 0)) (\<lambda>c1.
     ebind (writeInt16LE command 1 c1) (\<lambda>c2.
     ebind (writeInt32LE fct 3 c2) (\<lambda>c3.
     writeInt32LE ext 7 c3)))"

definition readWithBuffer :: "int \<Rightarrow> int \<Rightarrow> int \<Rightarrow> (bulk, zk) io" where
  "readWithBuffer command fct ext s =
     (let MAX_CHUNK = (if tcp s then 0xffc0 else 16 * 1024)
      in case prepare_args command fct ext of
        Inl e \<Rightarrow> (Inl e, s)
      | Inr commandString \<Rightarrow>
          io_bind (sendCommand CMD_PREPARE_BUFFER commandString 1024) (\<lambda>prep.
            if \<not> r_status prep then io_throw (Error ''Buffered read not supported'')
            else if r_code prep = CMD_DATA
            then io_return \<lparr>bs_buffer = r_data prep, bs_size = int (length (r_data prep))\<rparr>
            else io_bind (io_lift (readUInt32LE (r_data prep) 1)) (\<lambda>sz.
              let remain = sz mod MAX_CHUNK;
                  packets = (sz - remain) div MAX_CHUNK
              in io_bind (readChunks (nat packets) MAX_CHUNK 0 []) (\<lambda>(chunks, start).
                 io_bind (if remain \<noteq> 0
                          then io_bind (readChunk start remain) (\<lambda>chunk.
                                 io_return (chunks @ [chunk], start + remain))
                          else io_return (chunks, start)) (\<lambda>(chunks, start).
                 io_bind (sendCommand CMD_FREE_DATA [] 8) (\<lambda>_.
                   io_return \<lparr>bs_buffer = concat chunks, bs_size = start\<rparr>))))) s)"

definition refreshData :: "(bool, zk) io" where
  "refreshData =
     io_bind (sendCommand CMD_REFRESHDATA [] 8) (\<lambda>res.
       if \<not> r_status res then io_throw (Error ''Cannot refresh data'')
       else io_return True)"

subsection \<open>Strings\<close>

text \<open>
  A JavaScript string is its list of UTF-16 code units. The conversions between
  buffers and strings (\<open>buf.toString('utf8')\<close>, \<open>Buffer.from(str, 'utf8')\<close>) and
  \<open>Number(str)\<close> are built-ins of the platform; the model takes them as parameters,
  so every theorem holds whatever they compute. \<open>Number\<close> yields \<open>NaN\<close> or a number;
  only integral numbers are modelled.
\<close>

datatype jsnum = NaN | Num int

record builtins =
  utf8_decode :: "buffer \<Rightarrow> jsstring"
  utf8_encode :: "jsstring \<Rightarrow> buffer"
  to_number :: "jsstring \<Rightarrow> jsnum"

text \<open>\<open>String(n)\<close> for an integer \<open>n\<close>: its decimal digits.\<close>

function digits :: "nat \<Rightarrow> nat list" where
  "digits n = (if n < 10 then [48 + n] else digits (n div 10) @ [48 + n mod 10])"
  by pat_completeness auto
termination
  by (relation "measure id") auto

declare digits.simps [simp del]

definition js_String :: "int \<Rightarrow> jsstring" where
  "js_String n = (if n < 0 then 45 # digits (nat (- n)) else digits (nat n))"

text \<open>\<open>str.trim()\<close>: white space and line terminators of ECMAScript.\<close>

definition js_whitespace :: "nat \<Rightarrow> bool" where
  "js_whitespace c \<longleftrightarrow>
     c \<in> set [9, 10, 11, 12, 13, 32, 160, 5760, 8232, 8233, 8239, 8287, 12288, 65279]
     \<or> (8192 \<le> c \<and> c \<le> 8202)"

definition js_trim :: "jsstring \<Rightarrow> jsstring" where
  "js_trim str = rev (dropWhile js_whitespace (rev (dropWhile js_whitespace str)))"

text \<open>\<open>ZK._trimString(buf, start, end)\<close>.\<close>

definition trimString :: "builtins \<Rightarrow> buffer \<Rightarrow> nat \<Rightarrow> nat \<Rightarrow> jsstring" where
  "trimString js buf start end =
     js_trim (takeWhile (\<lambda>c. c \<noteq> 0) (utf8_decode js (buf_slice buf start end)))"

subsection \<open>getUsers\<close>

record user =
  u_uid :: int
  u_privilege :: int
  u_password :: jsstring
  u_name :: jsstring
  u_card :: int
  u_groupId :: jsstring
  u_userId :: jsstring

text \<open>One round of the loop over the 28-byte records, and of the loop over the 72-byte records.\<close>

definition parseUser28 :: "builtins \<Rightarrow> buffer \<Rightarrow> nat \<Rightarrow> js_error + user" where
  "parseUser28 js bytes offset =
     ebind (readUInt16LE bytes offset) (\<lambda>uid.
     ebind (readUInt8 bytes (offset + 2)) (\<lambda>privilege.
       let password = trimString js bytes (offset + 3) (offset + 8);
           name0 = trimString js bytes (offset + 8) (offset + 16);
           name = (if name0 = [] then [78, 78, 45] @ js_String uid else name0)
       in ebind (readUInt32LE bytes (offset + 16)) (\<lambda>card.
          ebind (readUInt8 bytes (offset + 21)) (\<lambda>g.
          ebind (readUInt32LE bytes (offset + 24)) (\<lambda>i.
            Inr \<lparr>u_uid = uid, u_privilege = privilege, u_password = password, u_name = name,
                 u_card = card, u_groupId = js_String g, u_userId = js_String i\<rparr>)))))"

definition parseUser72 :: "builtins \<Rightarrow> buffer \<Rightarrow> nat \<Rightarrow> js_error + user" where
  "parseUser72 js bytes offset =
     ebind (readUInt16LE bytes offset) (\<lambda>uid.
     ebind (readUInt8 bytes (offset + 2)) (\<lambda>privilege.
       let password = trimString js bytes (offset + 3) (offset + 11);
           name0 = trimString js bytes (offset + 11) (offset + 35);
           name = (if name0 = [] then [78, 78, 45] @ js_String uid else name0)
       in ebind (readUInt32LE bytes (offset + 35)) (\<lambda>card.
            let groupId = trimString js bytes (offset + 40) (offset + 47);
                userId = trimString js bytes (offset + 48) (offset + 72)
            in Inr \<lparr>u_uid = uid, u_privilege = privilege, u_password = password,
                    u_name = name, u_card = card, u_groupId = groupId, u_userId = userId\<rparr>)))"

function parseUsers ::
  "(buffer \<Rightarrow> nat \<Rightarrow> js_error + user) \<Rightarrow> nat \<Rightarrow> buffer \<Rightarrow> nat \<Rightarrow> js_error + user list"
where
  "parseUsers parse width bytes offset =
     (if 0 < width \<and> offset + width \<le> length bytes
      then ebind (parse bytes offset) (\<lambda>u.
           ebind (parseUsers parse width bytes (offset + width)) (\<lambda>us. Inr (u # us)))
      else Inr [])"
  by pat_completeness auto
termination
  by (relation "measure (\<lambda>(parse, width, bytes, offset). length bytes - offset)") auto

declare parseUsers.simps [simp del]

lemma digits_nonempty: "digits n \<noteq> []"
  by (subst digits.simps) simp

lemma digits_range: "d \<in> set (digits n) \<Longrightarrow> 48 \<le> d \<and> d \<le> 57"
proof (induction n arbitrary: d rule: digits.induct)
  case (1 n)
  show ?case
  proof (cases "n < 10")
    case True
    then have "digits n = [48 + n]" by (subst digits.simps) simp
    with "1.prems" True show ?thesis by simp
  next
    case False
    then have e: "digits n = digits (n div 10) @ [48 + n mod 10]" by (subst digits.simps) simp
    from "1.prems" e have "d \<in> set (digits (n div 10)) \<or> d = 48 + n mod 10" by auto
    then show ?thesis
    proof
      assume "d \<in> set (digits (n div 10))"
      with "1.IH"[OF False] show ?thesis by blast
    next
      assume "d = 48 + n mod 10"
      moreover have "n mod 10 < 10" by simp
      ultimately show ?thesis by linarith
    qed
  qed
qed

lemma digits_inj: "digits m = digits n \<Longrightarrow> m = n"
proof (induction m arbitrary: n rule: digits.induct)
  case (1 m)
  show ?case
  proof (cases "m < 10")
    case True
    then have dm: "digits m = [48 + m]" by (subst digits.simps) simp
    show ?thesis
    proof (cases "n < 10")
      case True
      then have "digits n = [48 + n]" by (subst digits.simps) simp
      with dm "1.prems" show ?thesis by simp
    next
      case False
      then have "digits n = digits (n div 10) @ [48 + n mod 10]" by (subst digits.simps) simp
      with dm "1.prems" have "digits (n div 10) = []" by (simp add: Cons_eq_append_conv)
      with digits_nonempty show ?thesis by blast
    qed
  next
    case False
    then have dm: "digits m = digits (m div 10) @ [48 + m mod 10]" by (subst digits.simps) simp
    show ?thesis
    proof (cases "n < 10")
      case True
      then have "digits n = [48 + n]" by (subst digits.simps) simp
      with dm "1.prems" have "digits (m div 10) = []" by (simp add: append_eq_Cons_conv)
      with digits_nonempty show ?thesis by blast
    next
      case False
      then have "digits n = digits (n div 10) @ [48 + n mod 10]" by (subst digits.simps) simp
      with dm "1.prems" have a: "digits (m div 10) = digits (n div 10)" and b: "m mod 10 = n mod 10"
        by simp_all
      from "1.IH"[OF \<open>\<not> m < 10\<close> a] have "m div 10 = n div 10" .
      then have "m div 10 * 10 + m mod 10 = n div 10 * 10 + n mod 10" using b by simp
      then show ?thesis by (simp only: div_mult_mod_eq)
    qed
  qed
qed

lemma js_String_inj: "js_String a = js_String b \<Longrightarrow> a = b"
proof -
  assume e: "js_String a = js_String b"
  have no45: "45 # xs \<noteq> digits n" for xs n
  proof
    assume "45 # xs = digits n"
    then have "45 \<in> set (digits n)" by (metis list.set_intros(1))
    from digits_range[OF this] show False by simp
  qed
  show ?thesis
  proof (cases "a < 0")
    case True
    show ?thesis
    proof (cases "b < 0")
      case True
      with \<open>a < 0\<close> e have "digits (nat (- a)) = digits (nat (- b))" by (simp add: js_String_def)
      then have "nat (- a) = nat (- b)" by (rule digits_inj)
      with True \<open>a < 0\<close> show ?thesis by simp
    next
      case False
      with \<open>a < 0\<close> e no45 show ?thesis by (simp add: js_String_def)
    qed
  next
    case False
    show ?thesis
    proof (cases "b < 0")
      case True
      with \<open>\<not> a < 0\<close> e no45[of "digits (nat (- b))" "nat a"] show ?thesis
        by (simp add: js_String_def)
    next
      case False
      with \<open>\<not> a < 0\<close> e have "digits (nat a) = digits (nat b)" by (simp add: js_String_def)
      then have "nat a = nat b" by (rule digits_inj)
      with False \<open>\<not> a < 0\<close> show ?thesis by simp
    qed
  qed
qed

lemma finite_collisions: "finite {k. n \<le> k \<and> js_String k \<in> u_userId ` set users}"
proof -
  have "inj js_String" by (rule injI) (rule js_String_inj)
  then have "finite (js_String -` (u_userId ` set users))"
    by (intro finite_vimageI) simp_all
  moreover have "{k. n \<le> k \<and> js_String k \<in> u_userId ` set users}
      \<subseteq> js_String -` (u_userId ` set users)" by auto
  ultimately show ?thesis by (rule rev_finite_subset)
qed

text \<open>
  The loop \<open>while (users.find((u) => u.userId === this.nextUserId))\<close>, which advances
  \<open>nextUid\<close> and \<open>nextUserId = String(nextUid)\<close> together; the result is the final
  \<open>nextUid\<close>.
\<close>

function skipTakenIds :: "user list \<Rightarrow> int \<Rightarrow> int" where
  "skipTakenIds users n =
     (if List.find (\<lambda>u. u_userId u = js_String n) users \<noteq> None
      then skipTakenIds users (n + 1) else n)"
  by pat_completeness auto
termination
proof (relation "measure (\<lambda>(users, n). card {k. n \<le> k \<and> js_String k \<in> u_userId ` set users})")
  show "wf (measure (\<lambda>(users, n). card {k. n \<le> k \<and> js_String k \<in> u_userId ` set users}))"
    by simp
next
  fix users :: "user list" and n :: int
  assume "List.find (\<lambda>u. u_userId u = js_String n) users \<noteq> None"
  then have "js_String n \<in> u_userId ` set users"
    by (auto simp: find_None_iff intro: rev_image_eqI)
  then have "n \<in> {k. n \<le> k \<and> js_String k \<in> u_userId ` set users}" by simp
  moreover have "n \<notin> {k. n + 1 \<le> k \<and> js_String k \<in> u_userId ` set users}" by simp
  moreover have "{k. n + 1 \<le> k \<and> js_String k \<in> u_userId ` set users}
      \<subseteq> {k. n \<le> k \<and> js_String k \<in> u_userId ` set users}" by auto
  ultimately have "{k. n + 1 \<le> k \<and> js_String k \<in> u_userId ` set users}
      \<subset> {k. n \<le> k \<and> js_String k \<in> u_userId ` set users}" by blast
  then have "card {k. n + 1 \<le> k \<and> js_String k \<in> u_userId ` set users}
      < card {k. n \<le> k \<and> js_String k \<in> u_userId ` set users}"
    by (rule psubset_card_mono[OF finite_collisions])
  then show "((users, n + 1), (users, n))
      \<in> measure (\<lambda>(users, n). card {k. n \<le> k \<and> js_String k \<in> u_userId ` set users})"
    by simp
qed

declare skipTakenIds.simps [simp del]

definition maxUidOf :: "user list \<Rightarrow> int" where
  "maxUidOf users = foldl (\<lambda>maxUid u. if u_uid u > maxUid then u_uid u else maxUid) 0 users"

definition getUsers :: "builtins \<Rightarrow> (user list, zk) io" where
  "getUsers js =
     io_bind readSizes (\<lambda>_ s1.
       if usersCount s1 = 0
       then (Inr [], s1\<lparr>nextUid := 1, nextUserId := js_String 1\<rparr>)
       else io_bind (readWithBuffer CMD_USERTEMP_RRQ FCT_USER 0) (\<lambda>res s2.
         if bs_size res \<le> 4 then (Inr [], s2)
         else
           (case readUInt32LE (bs_buffer res) 0 of
              Inl e \<Rightarrow> (Inl e, s2)
            | Inr totalSize \<Rightarrow>
                let ups0 = totalSize div usersCount s2;
                    ups = (if ups0 = 0 then 28 else ups0);
                    s3 = s2\<lparr>userPacketSize := ups\<rparr>;
                    bytes = drop 4 (bs_buffer res)
                in case (if ups = 28 then parseUsers (parseUser28 js) 28 bytes 0
                         else parseUsers (parseUser72 js) 72 bytes 0) of
                     Inl e \<Rightarrow> (Inl e, s3)
                   | Inr users \<Rightarrow>
                       let n = skipTakenIds users (maxUidOf users + 1)
                       in (Inr users, s3\<lparr>nextUid := n, nextUserId := js_String n\<rparr>))) s1)"

subsection \<open>setUser\<close>

text \<open>\<open>source.copy(target, targetStart)\<close>: as many bytes as fit.\<close>

definition buf_copy :: "buffer \<Rightarrow> buffer \<Rightarrow> nat \<Rightarrow> buffer" where
  "buf_copy source target targetStart =
     (let n = min (length source) (length target - targetStart)
      in take targetStart target @ take n source @ drop (targetStart + n) target)"

text \<open>\<open>buf.writeUInt8(value, offset)\<close> for a value that may be \<open>NaN\<close>: stored as 0.\<close>

definition writeUInt8_num :: "jsnum \<Rightarrow> nat \<Rightarrow> buffer \<Rightarrow> js_error + buffer" where
  "writeUInt8_num v off buf =
     (case v of
        NaN \<Rightarrow> (if length buf < off + 1 then Inl RangeError else Inr (buf[off := 0]))
      | Num n \<Rightarrow> writeUInt8 n off buf)"

text \<open>\<open>value || 0\<close> for a number.\<close>

definition num_or_zero :: "jsnum \<Rightarrow> int" where
  "num_or_zero v = (case v of NaN \<Rightarrow> 0 | Num n \<Rightarrow> n)"

text \<open>The packing block of \<open>setUser\<close>, from \<open>const priv = ...\<close> to the end of the \<open>if\<close>.\<close>

definition setUser_payload ::
  "builtins \<Rightarrow> int \<Rightarrow> int \<Rightarrow> jsstring \<Rightarrow> int \<Rightarrow> jsstring \<Rightarrow> jsstring \<Rightarrow> jsstring \<Rightarrow> int
     \<Rightarrow> js_error + buffer"
where
  "setUser_payload js packetSize uid name privilege pwd groupId userId cardNo =
     (let priv = (if privilege \<in> set [USER_DEFAULT, USER_ADMIN] then privilege
                  else USER_DEFAULT)
      in if packetSize = 28 then
           ebind (writeUInt16LE uid 0 (replicate 28 0)) (\<lambda>p1.
           ebind (writeUInt8 priv 2 p1) (\<lambda>p2.
             let p3 = buf_copy (buf_slice (utf8_encode js pwd) 0 5) p2 3;
                 p4 = buf_copy (buf_slice (utf8_encode js name) 0 8) p3 8
             in ebind (writeUInt32LE (js_uint32 cardNo) 16 p4) (\<lambda>p5.
                ebind (writeUInt8_num (if groupId \<noteq> [] then to_number js groupId else Num 0)
                         21 p5) (\<lambda>p6.
                ebind (writeUInt16LE 0 22 p6) (\<lambda>p7.
                writeUInt32LE (num_or_zero (to_number js userId)) 24 p7)))))
         else
           ebind (writeUInt16LE uid 0 (replicate 72 0)) (\<lambda>p1.
           ebind (writeUInt8 priv 2 p1) (\<lambda>p2.
             let p3 = buf_copy (buf_slice (utf8_encode js pwd) 0 8) p2 3;
                 p4 = buf_copy (buf_slice (utf8_encode js name) 0 24) p3 11
             in ebind (writeUInt32LE (js_uint32 cardNo) 35 p4) (\<lambda>p5.
                  let p6 = buf_copy (buf_slice (utf8_encode js groupId) 0 7) p5 40;
                      p7 = buf_copy (buf_slice (utf8_encode js userId) 0 24) p6 48
                  in Inr p7))))"

definition setUser ::
  "builtins \<Rightarrow> int \<Rightarrow> jsstring \<Rightarrow> int \<Rightarrow> jsstring \<Rightarrow> jsstring \<Rightarrow> jsstring \<Rightarrow> int \<Rightarrow> (bool, zk) io"
where
  "setUser js uid0 name privilege pwd groupId userId0 cardNo =
     io_bind (getUsers js) (\<lambda>users s1.
       let uid = (if uid0 = 0 then (if nextUid s1 = 0 then 1 else nextUid s1) else uid0);
           userId = (if userId0 = [] then js_String uid else userId0)
       in case setUser_payload js (userPacketSize s1) uid name privilege pwd groupId
                 userId cardNo of
            Inl e \<Rightarrow> (Inl e, s1)
          | Inr payload \<Rightarrow>
              io_bind (sendCommand CMD_USER_WRQ payload 1024) (\<lambda>res.
                if \<not> r_status res then io_throw (Error ''Cannot set user'')
                else io_bind refreshData (\<lambda>_ s2.
                  if uid = nextUid s2
                  then (Inr True, s2\<lparr>nextUid := nextUid s2 + 1,
                                     nextUserId := js_String (nextUid s2 + 1)\<rparr>)
                  else (Inr True, s2))) s1)"

section \<open>The second client (class ZK of the pyzk port) on the datagram carrier\<close>

text \<open>
  The bulk read and the user enumeration of the second client, for an instance built
  with \<open>forceUdp\<close> (\<open>this.tcp\<close> is false), so that every \<open>if (this.tcp)\<close> takes its
  datagram branch. Datagrams that arrive are queued in \<open>__udpQueue\<close>; the script gives,
  for each datagram sent, the datagrams the device answers with (or a send error).
  \<open>__header\<close> is written by \<open>__send_command\<close> and read by no modelled operation; it is
  left out.
\<close>

text \<open>
  \<open>user_packet_size\<close> holds the quotient \<open>totalSize / this.users\<close> of two integers, which
  need not be an integer; it is kept as numerator and denominator.
\<close>

datatype quotient = Quot int int

definition quot_is :: "quotient \<Rightarrow> int \<Rightarrow> bool" where
  "quot_is q k = (case q of Quot n d \<Rightarrow> d \<noteq> 0 \<and> n = k * d)"

record pz =
  session_id :: int
  reply_id :: int
  is_connect :: bool
  z_response :: int
  z_data_recv :: buffer
  z_data :: buffer
  users :: int
  fingers :: int
  records :: int
  dummy :: int
  cards :: int
  fingers_cap :: int
  users_cap :: int
  rec_cap :: int
  fingers_av :: int
  users_av :: int
  rec_av :: int
  faces :: int
  faces_cap :: int
  user_packet_size :: quotient
  next_uid :: int
  next_user_id :: jsstring
  udpQueue :: "buffer list"
  z_sent :: "request list"
  z_script :: "net_event list"

definition zk_send_udp :: "buffer \<Rightarrow> (unit, pz) io" where
  "zk_send_udp buf s =
     (case z_script s of
        [] \<Rightarrow> (Inr (), s)
      | SocketError # rest \<Rightarrow> (Inl (Error ''send error''), s\<lparr>z_script := rest\<rparr>)
      | Arrive msgs # rest \<Rightarrow> (Inr (), s\<lparr>udpQueue := udpQueue s @ msgs, z_script := rest\<rparr>))"

definition zk_receive_udp :: "(buffer, pz) io" where
  "zk_receive_udp s =
     (case udpQueue s of
        msg # queue \<Rightarrow> (Inr msg, s\<lparr>udpQueue := queue\<rparr>)
      | [] \<Rightarrow> (Inl (Error ''UDP receive timeout''), s))"

definition zk_unpack_header :: "buffer \<Rightarrow> js_error + header" where
  "zk_unpack_header buf =
     ebind (readUInt16LE buf 0) (\<lambda>c.
     ebind (readUInt16LE buf 2) (\<lambda>k.
     ebind (readUInt16LE buf 4) (\<lambda>s.
     ebind (readUInt16LE buf 6) (\<lambda>r.
       Inr \<lparr>h_command = c, h_checksum = k, h_session = s, h_reply = r\<rparr>))))"

record zk_result =
  z_status :: bool
  z_code :: int

definition zk_send_command :: "int \<Rightarrow> buffer \<Rightarrow> int \<Rightarrow> (zk_result, pz) io" where
  "zk_send_command command commandString responseSize s =
     (if command \<notin> set [CMD_CONNECT, CMD_AUTH] \<and> \<not> is_connect s
      then (Inl (Error ''instance are not connected.''), s)
      else case zk_create_header command commandString (session_id s) (reply_id s) of
        Inl e \<Rightarrow> (Inl e, s)
      | Inr hdr0 \<Rightarrow>
          io_bind (zk_send_udp hdr0) (\<lambda>_.
          io_bind zk_receive_udp (\<lambda>response s2.
            let s3 = s2\<lparr>z_data_recv := response\<rparr>
            in case zk_unpack_header (buf_slice response 0 8) of
                 Inl e \<Rightarrow> (Inl e, s3)
               | Inr hdr \<Rightarrow>
                   let s4 = s3\<lparr>z_response := h_command hdr, reply_id := h_reply hdr,
                                z_data := drop 8 response\<rparr>
                   in if h_command hdr \<in> set [CMD_ACK_OK, CMD_PREPARE_DATA, CMD_DATA]
                      then (Inr \<lparr>z_status = True, z_code = h_command hdr\<rparr>, s4)
                      else (Inr \<lparr>z_status = False, z_code = h_command hdr\<rparr>, s4)))
            (s\<lparr>z_sent := z_sent s @
                 [\<lparr>rq_command = command, rq_payload = commandString, rq_wire = hdr0\<rparr>]\<rparr>))"

definition zk_free_data :: "(bool, pz) io" where
  "zk_free_data =
     io_bind (zk_send_command CMD_FREE_DATA [] 8) (\<lambda>cmd.
       if z_status cmd then io_return True else io_throw (Error ''can't free data''))"

text \<open>
  The \<open>while (true)\<close> loop of \<open>__recieve_chunk\<close> on the datagram carrier, over the queued
  datagrams: it ends at the first datagram that is not \<open>CMD_DATA\<close>, and by the receive
  timeout when the queue runs empty.
\<close>

fun zk_collect :: "buffer list \<Rightarrow> buffer list \<Rightarrow> (js_error + buffer) \<times> buffer list" where
  "zk_collect [] acc = (Inl (Error ''UDP receive timeout''), [])"
| "zk_collect (packet # queue) acc =
     (case readUInt16LE packet 0 of
        Inl e \<Rightarrow> (Inl e, queue)
      | Inr response \<Rightarrow>
          if response = CMD_DATA then zk_collect queue (acc @ [drop 8 packet])
          else (Inr (concat acc), queue))"

definition zk_recieve_chunk :: "(buffer option, pz) io" where
  "zk_recieve_chunk s =
     (if z_response s = CMD_DATA then (Inr (Some (z_data s)), s)
      else if z_response s = CMD_PREPARE_DATA then
        (case readUInt32LE (z_data s) 0 of
           Inl e \<Rightarrow> (Inl e, s)
         | Inr sz \<Rightarrow>
             (case zk_collect (udpQueue s) [] of
                (Inl e, queue) \<Rightarrow> (Inl e, s\<lparr>udpQueue := queue\<rparr>)
              | (Inr b, queue) \<Rightarrow> (Inr (Some b), s\<lparr>udpQueue := queue\<rparr>)))
      else (Inr None, s))"

text \<open>The \<open>for (i = 0; i < 3; i += 1)\<close> loop of \<open>__read_chunk\<close>; the first argument counts
  the attempts that remain.\<close>

fun zk_read_chunk_loop :: "nat \<Rightarrow> int \<Rightarrow> int \<Rightarrow> (buffer, pz) io" where
  "zk_read_chunk_loop 0 start sz = io_throw (Error ''can't read chunk'')"
| "zk_read_chunk_loop (Suc n) start sz =
     (case ebind (writeInt32LE start 0 (replicate 8 0)) (writeInt32LE sz 4) of
        Inl e \<Rightarrow> io_throw e
      | Inr commandString \<Rightarrow>
          io_bind (zk_send_command CMD_READ_BUFFER commandString (1024 + 8)) (\<lambda>_.
          io_bind zk_recieve_chunk (\<lambda>d.
            case d of Some b \<Rightarrow> io_return b | None \<Rightarrow> zk_read_chunk_loop n start sz)))"

definition zk_read_chunk :: "int \<Rightarrow> int \<Rightarrow> (buffer, pz) io" where
  "zk_read_chunk start sz = zk_read_chunk_loop 3 start sz"

fun zk_read_chunks :: "nat \<Rightarrow> int \<Rightarrow> int \<Rightarrow> buffer list \<Rightarrow> (buffer list \<times> int, pz) io" where
  "zk_read_chunks 0 maxChunk start chunks = io_return (chunks, start)"
| "zk_read_chunks (Suc n) maxChunk start chunks =
     io_bind (zk_read_chunk start maxChunk) (\<lambda>chunk.
       zk_read_chunks n maxChunk (start + maxChunk) (chunks @ [chunk]))"

definition zk_read_with_buffer :: "int \<Rightarrow> int \<Rightarrow> int \<Rightarrow> (bulk, pz) io" where
  "zk_read_with_buffer command fct ext =
     (let maxChunk = 16 * 1024
      in case prepare_args command fct ext of
        Inl e \<Rightarrow> io_throw e
      | Inr commandString \<Rightarrow>
          io_bind (zk_send_command CMD_PREPARE_BUFFER commandString 1024) (\<lambda>cmd s1.
            if \<not> z_status cmd then (Inl (Error ''RWB Not supported''), s1)
            else if z_code cmd = CMD_DATA
            then (Inr \<lparr>bs_buffer = z_data s1, bs_size = int (length (z_data s1))\<rparr>, s1)
            else
              (case readUInt32LE (z_data s1) 1 of
                 Inl e \<Rightarrow> (Inl e, s1)
               | Inr sz \<Rightarrow>
                   let remain = sz mod maxChunk;
                       packets = (sz - remain) div maxChunk
                   in io_bind (zk_read_chunks (nat packets) maxChunk 0 []) (\<lambda>(chunks, start).
                      io_bind (if remain \<noteq> 0
                               then io_bind (zk_read_chunk start remain) (\<lambda>chunk.
                                      io_return (chunks @ [chunk], start + remain))
                               else io_return (chunks, start)) (\<lambda>(chunks, start).
                      io_bind zk_free_data (\<lambda>_.
                        io_return \<lparr>bs_buffer = concat chunks, bs_size = start\<rparr>))) s1)))"

definition zk_read_sizes :: "(bool, pz) io" where
  "zk_read_sizes =
     io_bind (zk_send_command CMD_GET_FREE_SIZES [] 1024) (\<lambda>cmd s.
       if \<not> z_status cmd then (Inl (Error ''can't read sizes''), s)
       else
         (case (if length (z_data s) \<ge> 80
                then (case readFields (z_data s) 0 20 of
                        Inl e \<Rightarrow> Inl e
                      | Inr flds \<Rightarrow>
                          Inr (s\<lparr>users := flds ! 4, fingers := flds ! 6, records := flds ! 8,
                                 dummy := flds ! 10, cards := flds ! 12,
                                 fingers_cap := flds ! 14, users_cap := flds ! 15,
                                 rec_cap := flds ! 16, fingers_av := flds ! 17,
                                 users_av := flds ! 18, rec_av := flds ! 19,
                                 z_data := drop 80 (z_data s)\<rparr>))
                else Inr s) of
            Inl e \<Rightarrow> (Inl e, s)
          | Inr s1 \<Rightarrow>
              if length (z_data s1) \<ge> 12
              then (case ebind (readInt32LE (z_data s1) 0) (\<lambda>f.
                         ebind (readInt32LE (z_data s1) 8) (\<lambda>fc. Inr (f, fc))) of
                      Inl e \<Rightarrow> (Inl e, s1)
                    | Inr (f, fc) \<Rightarrow> (Inr True, s1\<lparr>faces := f, faces_cap := fc\<rparr>))
              else (Inr True, s1)))"

text \<open>\<open>block.slice(a, b).toString(this.encoding).split('\x00')[0]\<close>.\<close>

definition zk_field :: "builtins \<Rightarrow> buffer \<Rightarrow> nat \<Rightarrow> nat \<Rightarrow> jsstring" where
  "zk_field js block a b = takeWhile (\<lambda>c. c \<noteq> 0) (utf8_decode js (buf_slice block a b))"

definition zk_parse28 :: "builtins \<Rightarrow> buffer \<Rightarrow> js_error + user" where
  "zk_parse28 js block =
     ebind (readUInt16LE block 0) (\<lambda>uid.
     ebind (readUInt8 block 2) (\<lambda>privilege.
       let password = zk_field js block 3 8;
           name = js_trim (zk_field js block 8 16)
       in ebind (readUInt32LE block 16) (\<lambda>card.
          ebind (readUInt16LE block 20) (\<lambda>g.
          ebind (readUInt32LE block 24) (\<lambda>i.
            let groupId = js_String g;
                userId = js_String i;
                resolvedName = (if name = [] then [78, 78, 45] @ userId else name)
            in Inr \<lparr>u_uid = uid, u_privilege = privilege, u_password = password,
                    u_name = resolvedName, u_card = card, u_groupId = groupId,
                    u_userId = userId\<rparr>)))))"

definition zk_parse72 :: "builtins \<Rightarrow> buffer \<Rightarrow> js_error + user" where
  "zk_parse72 js block =
     ebind (readUInt16LE block 0) (\<lambda>uid.
     ebind (readUInt8 block 2) (\<lambda>privilege.
       let password = zk_field js block 3 11;
           name = js_trim (zk_field js block 11 35)
       in ebind (readUInt32LE block 35) (\<lambda>card.
            let groupId = js_trim (zk_field js block 40 47);
                userId = zk_field js block 48 72;
                resolvedName = (if name = [] then [78, 78, 45] @ userId else name)
            in Inr \<lparr>u_uid = uid, u_privilege = privilege, u_password = password,
                    u_name = resolvedName, u_card = card, u_groupId = groupId,
                    u_userId = userId\<rparr>)))"

text \<open>The loops \<open>while (remaining.length >= 28)\<close> and \<open>while (remaining.length >= 72)\<close>.\<close>

function zk_parse_blocks ::
  "(buffer \<Rightarrow> js_error + user) \<Rightarrow> nat \<Rightarrow> buffer \<Rightarrow> js_error + user list"
where
  "zk_parse_blocks parse width remaining =
     (if 0 < width \<and> length remaining \<ge> width
      then ebind (parse (buf_slice remaining 0 width)) (\<lambda>u.
           ebind (zk_parse_blocks parse width (drop width remaining)) (\<lambda>us. Inr (u # us)))
      else Inr [])"
  by pat_completeness auto
termination
  by (relation "measure (\<lambda>(parse, width, remaining). length remaining)") auto

declare zk_parse_blocks.simps [simp del]

definition zk_get_users :: "builtins \<Rightarrow> (user list, pz) io" where
  "zk_get_users js =
     io_bind zk_read_sizes (\<lambda>_ s1.
       if users s1 = 0
       then (Inr [], s1\<lparr>next_uid := 1, next_user_id := js_String 1\<rparr>)
       else io_bind (zk_read_with_buffer CMD_USERTEMP_RRQ FCT_USER 0) (\<lambda>res s2.
         if bs_size res \<le> 4 then (Inr [], s2)
         else
           (case readUInt32LE (bs_buffer res) 0 of
              Inl e \<Rightarrow> (Inl e, s2)
            | Inr totalSize \<Rightarrow>
                let s3 = s2\<lparr>user_packet_size := Quot totalSize (users s2)\<rparr>;
                    remaining = drop 4 (bs_buffer res)
                in case (if quot_is (user_packet_size s3) 28
                         then zk_parse_blocks (zk_parse28 js) 28 remaining
                         else zk_parse_blocks (zk_parse72 js) 72 remaining) of
                     Inl e \<Rightarrow> (Inl e, s3)
                   | Inr usrs \<Rightarrow>
                       let maxUid = maxUidOf usrs + 1
                       in (Inr usrs, s3\<lparr>next_uid := maxUid,
                              next_user_id := js_String (skipTakenIds usrs maxUid)\<rparr>))) s1)"

section \<open>The chunk plan of a bulk read\<close>

text \<open>The chunk plan of a bulk read, as the specification words it.\<close>

definition i32le :: "int \<Rightarrow> buffer" where
  "i32le v = [word_of_int v, word_of_int (v div 256), word_of_int (v div 65536),
              word_of_int (v div 16777216)]"

definition chunk_plan :: "int \<Rightarrow> int \<Rightarrow> (int \<times> int) list" where
  "chunk_plan N C =
     map (\<lambda>i. (int i * C, C)) [0..<nat (N div C)] @
     (if N mod C \<noteq> 0 then [(N div C * C, N mod C)] else [])"

definition chunk_requests :: "(int \<times> int) list \<Rightarrow> (int \<times> buffer) list" where
  "chunk_requests plan = map (\<lambda>(start, sz). (CMD_READ_BUFFER, i32le start @ i32le sz)) plan"

definition requests_of :: "request list \<Rightarrow> (int \<times> buffer) list" where
  "requests_of rs = map (\<lambda>q. (rq_command q, rq_payload q)) rs"

text \<open>\<open>tiles a plan b\<close>: the ranges of the plan, in order, cover \<open>[a, b)\<close> without gap or
  overlap.\<close>

fun tiles :: "int \<Rightarrow> (int \<times> int) list \<Rightarrow> int \<Rightarrow> bool" where
  "tiles a [] b \<longleftrightarrow> a = b"
| "tiles a ((start, sz) # rest) b \<longleftrightarrow> start = a \<and> 0 < sz \<and> tiles (a + sz) rest b"

section \<open>Concrete clients and replies\<close>


text \<open>A connected client on the datagram carrier, session 7, last reply identifier 3.\<close>

definition example_client :: zk where
  "example_client = \<lparr>tcp = False, password = 0, sessionId = 7, replyId = 3, socket = True,
     isConnected = True, usersCount = 0, recordsCount = 0, userPacketSize = 28, nextUid = 1,
     nextUserId = [49], sent = [], script = [], dials = [], opened = 1, closed = 0\<rparr>"

definition example_pz :: pz where
  "example_pz = \<lparr>session_id = 7, reply_id = 3, is_connect = True, z_response = 0,
     z_data_recv = [], z_data = [], users = 0, fingers = 0, records = 0, dummy = 0, cards = 0,
     fingers_cap = 0, users_cap = 0, rec_cap = 0, fingers_av = 0, users_av = 0, rec_av = 0,
     faces = 0, faces_cap = 0, user_packet_size = Quot 28 1, next_uid = 1,
     next_user_id = [49], udpQueue = [], z_sent = [], z_script = []\<rparr>"

text \<open>Replies of the device: to \<open>CMD_GET_FREE_SIZES\<close> (one user), and an inline \<open>CMD_DATA\<close>
  answer to the prepare-buffer request holding one 28-byte record (uid 1, name Al,
  user id 2).\<close>

definition sizes_reply :: buffer where
  "sizes_reply = [0xD0, 0x07, 0, 0, 7, 0, 4, 0] @ replicate 16 0 @ [1, 0, 0, 0] @ replicate 60 0"

definition users_reply :: buffer where
  "users_reply = [0xDD, 0x05, 0, 0, 7, 0, 5, 0] @ [28, 0, 0, 0] @
     [1, 0, 0, 0, 0, 0, 0, 0, 65, 108, 0, 0, 0, 0, 0, 0, 0, 0, 0, 0, 0, 0, 0, 0, 2, 0, 0, 0]"

definition example_user :: user where
  "example_user = \<lparr>u_uid = 1, u_privilege = 0, u_password = [], u_name = [65, 108], u_card = 0,
     u_groupId = [48], u_userId = [50]\<rparr>"

section \<open>Properties of the codec\<close>

subsection \<open>Bytes and ranges\<close>

lemma replicate8: "replicate 8 (0::byte) = [0,0,0,0,0,0,0,0]"
  by (simp add: numeral_eq_Suc)


lemma sint_small: "uint (w :: 32 word) \<le> 65535 \<Longrightarrow> sint w = uint w"
proof -
  assume a: "uint w \<le> 65535"
  have "0 \<le> uint w" by simp
  then have lo: "- (2 ^ 31) \<le> uint w" by (rule order_trans[rotated]) simp
  have hi: "uint w < 2 ^ 31" using a by simp
  have "signed_take_bit 31 (uint w) = uint w"
    using lo hi by (rule signed_take_bit_int_eq_self)
  then show ?thesis by (simp add: sint_uint)
qed

lemma js_bitand_u16: "0 \<le> js_bitand x 65535 \<and> js_bitand x 65535 \<le> 65535"
proof -
  let ?w = "(word_of_int x :: 32 word) AND 65535"
  have le: "?w \<le> 65535" by (rule word_and_le1)
  then have u: "uint ?w \<le> 65535" by (simp add: word_le_def)
  have "sint ?w = uint ?w" using u by (rule sint_small)
  with u show ?thesis by (simp add: js_bitand_def)
qed

lemma createChecksum_u16: "0 \<le> createChecksum b \<and> createChecksum b \<le> 65535"
  unfolding createChecksum_def Let_def by (rule js_bitand_u16)

lemma zk_create_checksum_u16: "0 \<le> zk_create_checksum b \<and> zk_create_checksum b \<le> 65535"
  unfolding zk_create_checksum_def Let_def by (rule js_bitand_u16)

lemma createChecksum_range [simp]:
  "\<not> createChecksum b < 0" "\<not> 65535 < createChecksum b"
  using createChecksum_u16[of b] by auto

lemma zk_create_checksum_range [simp]:
  "\<not> zk_create_checksum b < 0" "\<not> 65535 < zk_create_checksum b"
  using zk_create_checksum_u16[of b] by auto








subsection \<open>The literal checksum scenario\<close>

text \<open>
  C1, as stated: the checksum of the bytes \<open>E8 03 00 00 00 00 FE FF\<close> is \<open>0x17F5\<close> and
  the composed packet is \<open>E8 03 F5 17 00 00 FE FF\<close>. Neither client computes that:
  the value \<open>0x17F5 = 6133\<close> is not what either checksum function returns on these
  bytes, and neither header composition yields the claimed packet for command 1000,
  session 0, reply 65534 and an empty payload.
\<close>

theorem checksum_scenario_refuted:
  "createChecksum [0xE8, 0x03, 0x00, 0x00, 0x00, 0x00, 0xFE, 0xFF] \<noteq> 0x17F5 \<and>
   zk_create_checksum [0xE8, 0x03, 0x00, 0x00, 0x00, 0x00, 0xFE, 0xFF] \<noteq> 0x17F5 \<and>
   createHeader 1000 [] 0 65534 \<noteq> Inr [0xE8, 0x03, 0xF5, 0x17, 0x00, 0x00, 0xFE, 0xFF] \<and>
   zk_create_header 1000 [] 0 65534 \<noteq> Inr [0xE8, 0x03, 0xF5, 0x17, 0x00, 0x00, 0xFE, 0xFF]"
  by code_simp

text \<open>
  C1, amended: on the bytes \<open>E8 03 00 00 00 00 FE FF\<close> the function \<open>createChecksum\<close>
  returns \<open>0xFC18\<close> and \<open>ZK.__create_checksum\<close> returns \<open>0xFC17\<close>; for command 1000,
  session 0, reply 65534 and an empty payload both header compositions produce exactly
  the packet \<open>E8 03 17 FC 00 00 00 00\<close> (the reply identifier wraps to 0).
\<close>

theorem checksum_scenario:
  "createChecksum [0xE8, 0x03, 0x00, 0x00, 0x00, 0x00, 0xFE, 0xFF] = 0xFC18 \<and>
   zk_create_checksum [0xE8, 0x03, 0x00, 0x00, 0x00, 0x00, 0xFE, 0xFF] = 0xFC17 \<and>
   createHeader 1000 [] 0 65534 = Inr [0xE8, 0x03, 0x17, 0xFC, 0x00, 0x00, 0x00, 0x00] \<and>
   zk_create_header 1000 [] 0 65534 = Inr [0xE8, 0x03, 0x17, 0xFC, 0x00, 0x00, 0x00, 0x00]"
  by code_simp

subsection \<open>Header composition and parsing\<close>




subsection \<open>Authentication key derivation\<close>

lemma a0: "\<not> bit (push_bit 1 (kw :: 32 word)) 0"
  by (subst bit_push_bit_iff) simp

lemma a1: "bit (push_bit 1 (kw :: 32 word)) (Suc m) \<longleftrightarrow> Suc m < 32 \<and> bit kw m"
  by (subst bit_push_bit_iff) (auto simp: possible_bit_word)

lemma a2: "bit (1 :: 32 word) m \<longleftrightarrow> m = 0"
  by (simp add: bit_1_iff)

lemma step_bits:
  fixes kw p :: "32 word"
  assumes i: "i < 32" and inv: "\<forall>m. bit kw m \<longleftrightarrow> m < i \<and> bit p (i - 1 - m)"
  shows "bit (if bit p i then push_bit 1 kw OR 1 else push_bit 1 kw) m \<longleftrightarrow>
         m < i + 1 \<and> bit p (i + 1 - 1 - m)"
proof (cases m)
  case 0
  have "bit (if bit p i then push_bit 1 kw OR 1 else push_bit 1 kw) 0 \<longleftrightarrow> bit p i"
    by (cases "bit p i") (simp_all only: if_True if_False bit_or_iff a0 a2 simp_thms)
  then show ?thesis using 0 by simp
next
  case (Suc m')
  have k: "bit kw m' \<longleftrightarrow> m' < i \<and> bit p (i - 1 - m')" using inv by blast
  have lt: "m' < i \<Longrightarrow> Suc m' < 32" using i by simp
  have "bit (if bit p i then push_bit 1 kw OR 1 else push_bit 1 kw) (Suc m') \<longleftrightarrow>
        Suc m' < 32 \<and> bit kw m'"
    by (cases "bit p i") (simp_all only: if_True if_False bit_or_iff a1 a2 simp_thms nat.simps)
  also have "\<dots> \<longleftrightarrow> m' < i \<and> bit p (i - 1 - m')" using k lt by blast
  also have "\<dots> \<longleftrightarrow> Suc m' < i + 1 \<and> bit p (i + 1 - 1 - Suc m')" by simp
  finally show ?thesis using Suc by simp
qed

lemma js_test_bit:
  "i < 32 \<Longrightarrow> js_bitand pass (js_shl 1 i) \<noteq> 0 \<longleftrightarrow> bit (word_of_int pass :: 32 word) i"
proof -
  assume i: "i < 32"
  let ?p = "word_of_int pass :: 32 word"
  have "js_bitand pass (js_shl 1 i) = sint (?p AND push_bit i 1)"
    using i by (simp add: js_bitand_def js_shl_def)
  moreover have "(?p AND push_bit i 1 = 0) \<longleftrightarrow> \<not> bit ?p i"
  proof
    assume z: "?p AND push_bit i 1 = 0"
    have "bit (?p AND push_bit i 1) i \<longleftrightarrow> bit ?p i"
      using i by (simp add: bit_simps)
    with z show "\<not> bit ?p i" by simp
  next
    assume nb: "\<not> bit ?p i"
    show "?p AND push_bit i 1 = 0"
    proof (rule bit_eqI)
      fix n
      have "bit (push_bit i (1 :: 32 word)) n \<Longrightarrow> n = i"
        by (auto simp: bit_simps)
      with nb show "bit (?p AND push_bit i 1) n \<longleftrightarrow> bit (0 :: 32 word) n"
        by (auto simp: bit_and_iff)
    qed
  qed
  ultimately show ?thesis by (simp add: signed_eq_0_iff)
qed


lemma commkey_loop_bits:
  "i + n = 32 \<Longrightarrow> (\<forall>m. bit (kw :: 32 word) m \<longleftrightarrow> m < i \<and> bit (word_of_int pass :: 32 word) (i - 1 - m)) \<Longrightarrow>
   \<exists>w :: 32 word. commkey_loop n i pass (sint kw) = sint w \<and>
        (\<forall>m. bit w m \<longleftrightarrow> m < 32 \<and> bit (word_of_int pass :: 32 word) (31 - m))"
proof (induction n arbitrary: i kw)
  case 0
  have "commkey_loop 0 i pass (sint kw) = sint kw" by simp
  moreover have "\<forall>m. bit kw m \<longleftrightarrow> m < 32 \<and> bit (word_of_int pass :: 32 word) (31 - m)"
    using 0 by simp
  ultimately have "commkey_loop 0 i pass (sint kw) = sint kw \<and>
     (\<forall>m. bit kw m \<longleftrightarrow> m < 32 \<and> bit (word_of_int pass :: 32 word) (31 - m))" by (rule conjI)
  then show ?case by (rule exI)
next
  case (Suc n)
  let ?p = "word_of_int pass :: 32 word"
  let ?k = "if bit ?p i then push_bit 1 kw OR 1 else push_bit 1 kw"
  have i: "i < 32" using Suc.prems by simp
  have sh: "js_shl (sint kw) 1 = sint (push_bit 1 kw)"
    by (simp add: js_shl_def)
  have orr: "js_bitor (sint (push_bit 1 kw)) 1 = sint (push_bit 1 kw OR 1)"
    by (simp add: js_bitor_def)
  have step: "(if js_bitand pass (js_shl 1 i) \<noteq> 0 then js_bitor (js_shl (sint kw) 1) 1
               else js_shl (sint kw) 1) = sint ?k"
    by (cases "bit ?p i") (simp_all only: js_test_bit[OF i] sh orr if_True if_False simp_thms)
  have inv: "\<forall>m. bit ?k m \<longleftrightarrow> m < i + 1 \<and> bit ?p (i + 1 - 1 - m)"
    using step_bits[OF i Suc.prems(2)] by blast
  have "i + 1 + n = 32" using Suc.prems by simp
  from Suc.IH[OF this inv] show ?case by (simp only: commkey_loop.simps step)
qed

lemma commkey_loop_reverse:
  "commkey_loop 32 0 pass 0 = sint (word_reverse (word_of_int pass :: 32 word))"
proof -
  have "\<exists>w :: 32 word. commkey_loop 32 0 pass (sint (0 :: 32 word)) = sint w \<and>
        (\<forall>m. bit w m \<longleftrightarrow> m < 32 \<and> bit (word_of_int pass :: 32 word) (31 - m))"
    by (rule commkey_loop_bits) simp_all
  then obtain w :: "32 word" where w: "commkey_loop 32 0 pass (sint (0 :: 32 word)) = sint w"
    and b: "\<forall>m. bit w m \<longleftrightarrow> m < 32 \<and> bit (word_of_int pass :: 32 word) (31 - m)"
    by blast
  have "w = word_reverse (word_of_int pass :: 32 word)"
    by (rule bit_eqI) (simp add: b bit_word_reverse_iff)
  with w show ?thesis by simp
qed

lemma byte_of_sint32:
  "bit (word_of_int (sint (W :: 32 word)) :: byte) n \<longleftrightarrow> n < 8 \<and> bit W n"
  by (auto simp: bit_word_scast_iff)

lemma jsxor_byte:
  "(word_of_int (js_bitxor (uint (a :: byte)) c) :: byte) = a XOR word_of_int c"
proof (rule bit_eqI)
  fix n
  let ?W = "(word_of_int (uint a) :: 32 word) XOR word_of_int c"
  have "bit (word_of_int (js_bitxor (uint a) c) :: byte) n \<longleftrightarrow> n < 8 \<and> bit ?W n"
    unfolding js_bitxor_def by (rule byte_of_sint32)
  also have "\<dots> \<longleftrightarrow> bit (a XOR word_of_int c) n"
    by (auto simp: bit_xor_iff bit_word_of_int_iff bit_uint_iff bit_word_ucast_iff dest: bit_imp_le_length)
  finally show "bit (word_of_int (js_bitxor (uint a) c) :: byte) n \<longleftrightarrow> bit (a XOR word_of_int c) n" .
qed

lemma jsand_byte:
  "(word_of_int (js_bitand x y) :: byte) = word_of_int x AND word_of_int y"
proof (rule bit_eqI)
  fix n
  let ?W = "(word_of_int x :: 32 word) AND word_of_int y"
  have "bit (word_of_int (js_bitand x y) :: byte) n \<longleftrightarrow> n < 8 \<and> bit ?W n"
    unfolding js_bitand_def by (rule byte_of_sint32)
  also have "\<dots> \<longleftrightarrow> bit ((word_of_int x :: byte) AND word_of_int y) n"
    by (auto simp: bit_and_iff bit_word_of_int_iff)
  finally show "bit (word_of_int (js_bitand x y) :: byte) n \<longleftrightarrow>
      bit ((word_of_int x :: byte) AND word_of_int y) n" .
qed

lemma uint_div_drop: "uint (K :: 32 word) div 2 ^ n = uint (drop_bit n K)"
proof -
  have "uint (drop_bit n K) = drop_bit n (take_bit 32 (uint K))"
    using unsigned_drop_bit_eq[of n K, where ?'a = int] by simp
  also have "take_bit 32 (uint K) = uint K" by (simp add: take_bit_int_eq_self_iff uint_lt2p[of K, simplified])
  finally show ?thesis by (simp add: drop_bit_eq_div)
qed

lemma u32_bytes:
  fixes K :: "32 word"
  shows "(word_of_int (uint K) :: byte) = ucast K"
    "(word_of_int (uint K div 256) :: byte) = ucast (drop_bit 8 K)"
    "(word_of_int (uint K div 65536) :: byte) = ucast (drop_bit 16 K)"
    "(word_of_int (uint K div 16777216) :: byte) = ucast (drop_bit 24 K)"
proof -
  show "(word_of_int (uint K) :: byte) = ucast K" by simp
  show "(word_of_int (uint K div 256) :: byte) = ucast (drop_bit 8 K)"
    using uint_div_drop[of K 8] by simp
  show "(word_of_int (uint K div 65536) :: byte) = ucast (drop_bit 16 K)"
    using uint_div_drop[of K 16] by simp
  show "(word_of_int (uint K div 16777216) :: byte) = ucast (drop_bit 24 K)"
    using uint_div_drop[of K 24] by simp
qed

lemma u16_pair:
  fixes a b :: byte
  shows "(word_of_int (uint a + 256 * uint b) :: byte) = a"
    and "(word_of_int ((uint a + 256 * uint b) div 256) :: byte) = b"
    and "0 \<le> uint a + 256 * uint b" and "uint a + 256 * uint b \<le> 65535"
proof -
  have a: "0 \<le> uint a" "uint a < 256" using uint_lt2p[of a] by simp_all
  have b: "0 \<le> uint b" "uint b < 256" using uint_lt2p[of b] by simp_all
  have z: "(256 :: byte) = 0" by simp
  show "(word_of_int (uint a + 256 * uint b) :: byte) = a"
    by (simp add: z)
  have "(uint a + 256 * uint b) div 256 = uint a div 256 + uint b" by simp
  also have "uint a div 256 = 0" using a by simp
  finally show "(word_of_int ((uint a + 256 * uint b) div 256) :: byte) = b" by simp
  show "0 \<le> uint a + 256 * uint b" using a b by simp
  show "uint a + 256 * uint b \<le> 65535" using a b by simp
qed

lemma js_uint32_word: "js_uint32 (sint (w :: 32 word) + S) = uint (w + word_of_int S)"
proof -
  have e: "(word_of_int (sint w + S) :: 32 word) = w + word_of_int S" by simp
  have "uint (word_of_int (sint w + S) :: 32 word) = (sint w + S) mod 2 ^ 32"
    by (simp only: uint_word_of_int) simp
  then show ?thesis by (simp only: e js_uint32_def)
qed

lemma replicate4: "replicate 4 (0::byte) = [0,0,0,0]"
  by (simp add: numeral_eq_Suc)

lemma writeUInt32LE_word:
  "writeUInt32LE (uint (K :: 32 word)) 0 [0, 0, 0, 0] =
     Inr [ucast K, ucast (drop_bit 8 K), ucast (drop_bit 16 K), ucast (drop_bit 24 K)]"
proof -
  have "uint K < 2 ^ 32" using uint_lt2p[of K] by simp
  then have r: "\<not> uint K < 0" "\<not> 4294967295 < uint K" by simp_all
  show ?thesis
    unfolding writeUInt32LE_def
    by (simp only: r u32_bytes) simp
qed

lemma swap_halves:
  fixes x0 x1 x2 x3 :: byte
  shows "ebind (readUInt16LE [x0, x1, x2, x3] 2) (\<lambda>hi.
         ebind (writeUInt16LE hi 0 [0, 0, 0, 0]) (\<lambda>s1.
         ebind (readUInt16LE [x0, x1, x2, x3] 0) (\<lambda>lo.
         ebind (writeUInt16LE lo 2 s1) (\<lambda>swapped. f swapped)))) = f [x2, x3, x0, x1]"
proof -
  have r2: "readUInt16LE [x0, x1, x2, x3] 2 = Inr (uint x2 + 256 * uint x3)"
    by (simp add: readUInt16LE_def)
  have r0: "readUInt16LE [x0, x1, x2, x3] 0 = Inr (uint x0 + 256 * uint x1)"
    by (simp add: readUInt16LE_def)
  have rng: "\<not> uint a + 256 * uint b < 0" "\<not> 65535 < uint a + 256 * uint b" for a b :: byte
    using u16_pair(3,4)[of a b] by linarith+
  have w0: "writeUInt16LE (uint x2 + 256 * uint x3) 0 [0, 0, 0, 0] = Inr [x2, x3, 0, 0]"
    unfolding writeUInt16LE_def by (simp only: rng u16_pair(1,2)) simp
  have w2: "writeUInt16LE (uint x0 + 256 * uint x1) 2 [x2, x3, 0, 0] = Inr [x2, x3, x0, x1]"
    unfolding writeUInt16LE_def by (simp only: rng u16_pair(1,2)) simp
  show ?thesis by (simp only: r2 r0 w0 w2 ebind_def sum.case)
qed

lemma commkey_tail:
  fixes K :: "32 word"
  assumes B: "(word_of_int B :: byte) = word_of_int t AND 255"
  shows "ebind (writeUInt32LE (uint K) 0 [0, 0, 0, 0]) (\<lambda>tmp.
           ebind (readUInt16LE (buffer_from
                 [js_bitxor (uint (tmp ! 0)) (of_char CHR ''Z''),
                  js_bitxor (uint (tmp ! 1)) (of_char CHR ''K''),
                  js_bitxor (uint (tmp ! 2)) (of_char CHR ''S''),
                  js_bitxor (uint (tmp ! 3)) (of_char CHR ''O'')]) 2) (\<lambda>hi.
              ebind (writeUInt16LE hi 0 [0, 0, 0, 0]) (\<lambda>s1.
              ebind (readUInt16LE (buffer_from
                 [js_bitxor (uint (tmp ! 0)) (of_char CHR ''Z''),
                  js_bitxor (uint (tmp ! 1)) (of_char CHR ''K''),
                  js_bitxor (uint (tmp ! 2)) (of_char CHR ''S''),
                  js_bitxor (uint (tmp ! 3)) (of_char CHR ''O'')]) 0) (\<lambda>lo.
              ebind (writeUInt16LE lo 2 s1) (\<lambda>swapped.
                 Inr (buffer_from
                     [js_bitxor (uint (swapped ! 0)) B,
                      js_bitxor (uint (swapped ! 1)) B,
                      B,
                      js_bitxor (uint (swapped ! 3)) B]))))))
         = Inr [((ucast (drop_bit 16 K) :: byte) XOR of_char CHR ''S'') XOR (word_of_int t AND 255),
                ((ucast (drop_bit 24 K) :: byte) XOR of_char CHR ''O'') XOR (word_of_int t AND 255),
                word_of_int t AND 255,
                ((ucast (drop_bit 8 K) :: byte) XOR of_char CHR ''K'') XOR (word_of_int t AND 255)]"
proof -
  define t0 :: byte where "t0 = ucast K"
  define t1 :: byte where "t1 = ucast (drop_bit 8 K)"
  define t2 :: byte where "t2 = ucast (drop_bit 16 K)"
  define t3 :: byte where "t3 = ucast (drop_bit 24 K)"
  have w: "writeUInt32LE (uint K) 0 [0, 0, 0, 0] = Inr [t0, t1, t2, t3]"
    by (simp only: writeUInt32LE_word t0_def t1_def t2_def t3_def)
  have nths: "[t0, t1, t2, t3] ! 0 = t0" "[t0, t1, t2, t3] ! 1 = t1"
    "[t0, t1, t2, t3] ! 2 = t2" "[t0, t1, t2, t3] ! 3 = t3" by simp_all
  have x: "buffer_from [js_bitxor (uint t0) c0, js_bitxor (uint t1) c1,
                        js_bitxor (uint t2) c2, js_bitxor (uint t3) c3]
           = [t0 XOR word_of_int c0, t1 XOR word_of_int c1, t2 XOR word_of_int c2,
              t3 XOR word_of_int c3]" for c0 c1 c2 c3
    by (simp add: buffer_from_def jsxor_byte)
  have fin: "buffer_from [js_bitxor (uint ([a0, a1, a2, a3] ! 0)) B,
                          js_bitxor (uint ([a0, a1, a2, a3] ! 1)) B, B,
                          js_bitxor (uint ([a0, a1, a2, a3] ! 3)) B]
           = [a0 XOR (word_of_int t AND 255), a1 XOR (word_of_int t AND 255),
              word_of_int t AND 255, a3 XOR (word_of_int t AND 255)]" for a0 a1 a2 a3 :: byte
    by (simp add: buffer_from_def jsxor_byte B)
  have oc: "word_of_int (of_char c) = (of_char c :: byte)" for c
    by (simp add: of_char_def)
  show ?thesis
    unfolding w
    apply (simp only: ebind_def[of "Inr _"] sum.case nths x swap_halves fin oc)
    apply (simp only: t0_def t1_def t2_def t3_def)
    done
qed

lemma makeCommKey_reference:
  "makeCommKey P S t = Inr (commkey_reference P S t)"
proof -
  define K where "K = word_reverse (word_of_int P :: 32 word) + word_of_int S"
  have k: "js_uint32 (commkey_loop 32 0 P 0 + S) = uint K"
    by (simp only: commkey_loop_reverse js_uint32_word K_def)
  have B: "(word_of_int (js_bitand 255 t) :: byte) = word_of_int t AND 255"
    by (simp add: jsand_byte and.commute)
  have r: "commkey_reference P S t =
      [((ucast (drop_bit 16 K) :: byte) XOR of_char CHR ''S'') XOR (word_of_int t AND 255),
                ((ucast (drop_bit 24 K) :: byte) XOR of_char CHR ''O'') XOR (word_of_int t AND 255),
                word_of_int t AND 255,
                ((ucast (drop_bit 8 K) :: byte) XOR of_char CHR ''K'') XOR (word_of_int t AND 255)]"
    unfolding commkey_reference_def Let_def K_def by simp
  show ?thesis
    unfolding makeCommKey_def Let_def k replicate4 r
    by (rule commkey_tail[OF B])
qed

lemma zk_makeCommKey_reference:
  "zk_makeCommKey P S t = Inr (commkey_reference P S t)"
proof -
  define K where "K = word_reverse (word_of_int P :: 32 word) + word_of_int S"
  have k: "js_uint32 (commkey_loop 32 0 P 0 + S) = uint K"
    by (simp only: commkey_loop_reverse js_uint32_word K_def)
  have B: "(word_of_int (js_bitand t 255) :: byte) = word_of_int t AND 255"
    by (simp add: jsand_byte)
  have r: "commkey_reference P S t =
      [((ucast (drop_bit 16 K) :: byte) XOR of_char CHR ''S'') XOR (word_of_int t AND 255),
                ((ucast (drop_bit 24 K) :: byte) XOR of_char CHR ''O'') XOR (word_of_int t AND 255),
                word_of_int t AND 255,
                ((ucast (drop_bit 8 K) :: byte) XOR of_char CHR ''K'') XOR (word_of_int t AND 255)]"
    unfolding commkey_reference_def Let_def K_def by simp
  show ?thesis
    unfolding zk_makeCommKey_def Let_def k replicate4 r
    by (rule commkey_tail[OF B])
qed

text \<open>
  C6: for every numeric password \<open>P\<close>, session identifier \<open>S\<close> and ticks value \<open>t\<close>, both
  \<open>makeCommKey\<close> functions return the bytes of the reference algorithm: reverse the low
  32 bits of \<open>P\<close>, add \<open>S\<close> keeping the low 32 bits, XOR the four little-endian bytes with
  the ASCII codes of Z, K, S, O, swap the two 16-bit halves, then XOR bytes 0, 1 and 3
  with \<open>t & 0xFF\<close> and set byte 2 to \<open>t & 0xFF\<close>.
\<close>

theorem makeCommKey_refines_reference:
  "makeCommKey P S t = Inr (commkey_reference P S t) \<and>
   zk_makeCommKey P S t = Inr (commkey_reference P S t)"
  using makeCommKey_reference[of P S t] zk_makeCommKey_reference[of P S t] by (rule conjI)

section \<open>Properties of the session layer\<close>

text \<open>
  C7: when the transport hands \<open>_sendCommand\<close> a reply of at least 8 bytes, the call
  returns; its status is true exactly when the command code of the reply header is
  \<open>CMD_ACK_OK\<close>, \<open>CMD_PREPARE_DATA\<close> or \<open>CMD_DATA\<close>, and whatever the code the stored
  \<open>sessionId\<close> and \<open>replyId\<close> are the session and reply fields of that header.
\<close>

theorem sendCommand_classifies_reply:
  assumes allowed: "command = CMD_CONNECT \<or> command = CMD_AUTH \<or> isConnected s"
    and packet: "createHeader command commandString (sessionId s) (replyId s) = Inr packet"
    and sock: "socket s"
    and recv: "(if tcp s then sendTcp packet
                   (s\<lparr>sent := sent s @ [\<lparr>rq_command = command, rq_payload = commandString,
                                           rq_wire = packet\<rparr>]\<rparr>)
                else sendUdp packet
                   (s\<lparr>sent := sent s @ [\<lparr>rq_command = command, rq_payload = commandString,
                                           rq_wire = packet\<rparr>]\<rparr>)) = (Inr raw, s2)"
    and len: "8 \<le> length raw"
  shows "\<exists>res s'. sendCommand command commandString responseSize s = (Inr res, s') \<and>
           readHeader (buf_slice raw 0 8) = Inr (r_header res) \<and>
           r_code res = h_command (r_header res) \<and>
           r_data res = drop 8 raw \<and>
           r_status res =
             (r_code res = CMD_ACK_OK \<or> r_code res = CMD_PREPARE_DATA \<or> r_code res = CMD_DATA) \<and>
           sessionId s' = h_session (r_header res) \<and>
           replyId s' = h_reply (r_header res)"
proof -
  obtain hdr where hdr: "readHeader (buf_slice raw 0 8) = Inr hdr"
    using len by (auto simp: readHeader_def readUInt16LE_def ebind_def buf_slice_def)
  show ?thesis
    using allowed packet sock recv hdr
    by (auto simp: sendCommand_def Let_def split: if_splits)
qed




lemma ex_header_refresh: "createHeader 1013 [] 7 3 = Inr [245, 3, 255, 251, 7, 0, 4, 0]"
  by code_simp


text \<open>
  C10: \<open>connect\<close> on a client whose \<open>isConnected\<close> flag is set returns at once and leaves
  the whole state as it was: no socket is opened or closed, nothing is sent, and the
  stored session and reply identifiers are untouched.
\<close>

theorem connect_when_connected:
  "isConnected s \<Longrightarrow> connect s = (Inr (), s)"
  by (simp add: connect_def)

theorem connect_when_connected_witness:
  "isConnected example_client \<and> connect example_client = (Inr (), example_client)"
proof -
  have h: "isConnected example_client" by (simp add: example_client_def)
  from h connect_when_connected[OF h] show ?thesis by (rule conjI)
qed


lemma skipTakenIds_ge: "n \<le> skipTakenIds usrs n"
proof (induction usrs n rule: skipTakenIds.induct)
  case (1 usrs n)
  show ?case
  proof (cases "List.find (\<lambda>u. u_userId u = js_String n) usrs \<noteq> None")
    case True
    then have "skipTakenIds usrs n = skipTakenIds usrs (n + 1)"
      by (subst skipTakenIds.simps) simp
    with "1.IH"[OF True] show ?thesis by simp
  next
    case False
    then have "skipTakenIds usrs n = n" by (subst skipTakenIds.simps) simp
    then show ?thesis by simp
  qed
qed

lemma skipTakenIds_fresh: "u \<in> set usrs \<Longrightarrow> u_userId u \<noteq> js_String (skipTakenIds usrs n)"
proof (induction usrs n rule: skipTakenIds.induct)
  case (1 usrs n)
  show ?case
  proof (cases "List.find (\<lambda>u. u_userId u = js_String n) usrs \<noteq> None")
    case True
    then have "skipTakenIds usrs n = skipTakenIds usrs (n + 1)"
      by (subst skipTakenIds.simps) simp
    with "1.IH"[OF True "1.prems"] show ?thesis by simp
  next
    case False
    then have e: "skipTakenIds usrs n = n" by (subst skipTakenIds.simps) simp
    from False have "\<not> (\<exists>x. x \<in> set usrs \<and> u_userId x = js_String n)"
      by (simp add: find_None_iff)
    with "1.prems" e show ?thesis by auto
  qed
qed

lemma foldl_max_ge:
  "a \<le> foldl (\<lambda>maxUid u. if u_uid u > maxUid then u_uid u else maxUid) a usrs"
proof (induction usrs arbitrary: a)
  case Nil
  show ?case by simp
next
  case (Cons x xs)
  have "a \<le> (if a < u_uid x then u_uid x else a)" by simp
  also have "\<dots> \<le> foldl (\<lambda>maxUid u. if u_uid u > maxUid then u_uid u else maxUid)
      (if a < u_uid x then u_uid x else a) xs" by (rule Cons.IH)
  finally show ?case by simp
qed

lemma foldl_max_mem:
  "u \<in> set usrs \<Longrightarrow>
   u_uid u \<le> foldl (\<lambda>maxUid u. if u_uid u > maxUid then u_uid u else maxUid) a usrs"
proof (induction usrs arbitrary: a)
  case Nil
  then show ?case by simp
next
  case (Cons x xs)
  show ?case
  proof (cases "u = x")
    case True
    have "u_uid x \<le> (if a < u_uid x then u_uid x else a)" by simp
    also have "\<dots> \<le> foldl (\<lambda>maxUid u. if u_uid u > maxUid then u_uid u else maxUid)
        (if a < u_uid x then u_uid x else a) xs" by (rule foldl_max_ge)
    finally show ?thesis using True by simp
  next
    case False
    with Cons.prems have "u \<in> set xs" by simp
    from Cons.IH[OF this] show ?thesis by simp
  qed
qed

lemma maxUidOf_ge: "u \<in> set usrs \<Longrightarrow> u_uid u \<le> maxUidOf usrs"
  unfolding maxUidOf_def by (rule foldl_max_mem)

lemma hints_after_skip:
  assumes "u \<in> set usrs"
  shows "u_uid u < skipTakenIds usrs (maxUidOf usrs + 1)"
    and "u_uid u < maxUidOf usrs + 1"
    and "u_userId u \<noteq> js_String (skipTakenIds usrs (maxUidOf usrs + 1))"
proof -
  have a: "u_uid u \<le> maxUidOf usrs" using assms by (rule maxUidOf_ge)
  then show "u_uid u < maxUidOf usrs + 1" by simp
  have "maxUidOf usrs + 1 \<le> skipTakenIds usrs (maxUidOf usrs + 1)" by (rule skipTakenIds_ge)
  with a show "u_uid u < skipTakenIds usrs (maxUidOf usrs + 1)" by simp
  show "u_userId u \<noteq> js_String (skipTakenIds usrs (maxUidOf usrs + 1))"
    using assms by (rule skipTakenIds_fresh)
qed

lemma getUsers_fresh:
  assumes "getUsers js s = (Inr usrs, s')"
  shows "(\<forall>u\<in>set usrs. u_uid u < nextUid s') \<and> (\<forall>u\<in>set usrs. u_userId u \<noteq> nextUserId s')"
  using assms
  by (auto simp: getUsers_def io_bind_def Let_def hints_after_skip
      split: prod.splits sum.splits if_splits)

lemma zk_get_users_fresh:
  assumes "zk_get_users js s = (Inr usrs, s')"
  shows "(\<forall>u\<in>set usrs. u_uid u < next_uid s') \<and> (\<forall>u\<in>set usrs. u_userId u \<noteq> next_user_id s')"
  using assms
  by (auto simp: zk_get_users_def io_bind_def Let_def hints_after_skip maxUidOf_ge
      split: prod.splits sum.splits if_splits)

section \<open>Traces of the bulk read\<close>

lemma requests_of_append [simp]: "requests_of (xs @ ys) = requests_of xs @ requests_of ys"
  by (simp add: requests_of_def)

lemma sendCommand_trace:
  assumes "sendCommand c p rs s = (r, s')"
  shows "tcp s' = tcp s"
    and "requests_of (sent s') = requests_of (sent s) \<or>
         requests_of (sent s') = requests_of (sent s) @ [(c, p)]"
    and "\<And>x. r = Inr x \<Longrightarrow> requests_of (sent s') = requests_of (sent s) @ [(c, p)]"
  using assms
  by (auto simp: sendCommand_def sendUdp_def sendTcp_def Let_def requests_of_def
      split: if_splits sum.splits prod.splits list.splits net_event.splits)

lemma chunk_args:
  "ebind (writeInt32LE start 0 (replicate 8 0)) (writeInt32LE sz 4) = Inr payload \<Longrightarrow>
   payload = i32le start @ i32le sz"
  by (auto simp: ebind_def writeInt32LE_def replicate8 i32le_def split: if_splits)

lemma readChunk_trace:
  assumes "readChunk start sz s = (r, s')"
  shows "tcp s' = tcp s"
    and "requests_of (sent s') = requests_of (sent s) \<or>
         requests_of (sent s') = requests_of (sent s) @ [(CMD_READ_BUFFER, i32le start @ i32le sz)]"
    and "\<And>x. r = Inr x \<Longrightarrow>
         requests_of (sent s') = requests_of (sent s) @ [(CMD_READ_BUFFER, i32le start @ i32le sz)]"
proof -
  show "tcp s' = tcp s"
    using assms
    by (auto simp: readChunk_def io_bind_def Let_def dest: sendCommand_trace(1)
        split: sum.splits prod.splits if_splits)
  show "requests_of (sent s') = requests_of (sent s) \<or>
         requests_of (sent s') = requests_of (sent s) @ [(CMD_READ_BUFFER, i32le start @ i32le sz)]"
    using assms
    by (auto simp: readChunk_def io_bind_def Let_def dest!: chunk_args dest: sendCommand_trace(2)
        split: sum.splits prod.splits if_splits)
  show "\<And>x. r = Inr x \<Longrightarrow>
         requests_of (sent s') = requests_of (sent s) @ [(CMD_READ_BUFFER, i32le start @ i32le sz)]"
    using assms
    by (auto simp: readChunk_def io_bind_def Let_def dest!: chunk_args dest: sendCommand_trace(3)
        split: sum.splits prod.splits if_splits)
qed

lemma chunk_requests_Cons:
  "chunk_requests (map (\<lambda>i. (start + int i * C, C)) [0..<Suc k]) =
   (CMD_READ_BUFFER, i32le start @ i32le C) #
   chunk_requests (map (\<lambda>i. (start + C + int i * C, C)) [0..<k])"
proof -
  have "map (\<lambda>i. (start + int i * C, C)) [0..<Suc k] =
        (start, C) # map (\<lambda>i. (start + int (Suc i) * C, C)) [0..<k]"
    by (simp only: map_upt_Suc) simp
  moreover have "(\<lambda>i. (start + int (Suc i) * C, C)) = (\<lambda>i. (start + C + int i * C, C))"
    by (rule ext) (simp add: algebra_simps)
  ultimately show ?thesis by (simp add: chunk_requests_def)
qed

lemma readChunks_trace:
  "readChunks n C start chunks s = (r, s') \<Longrightarrow>
   tcp s' = tcp s \<and>
   (\<exists>k\<le>n. requests_of (sent s') =
            requests_of (sent s) @ chunk_requests (map (\<lambda>i. (start + int i * C, C)) [0..<k]) \<and>
          (\<forall>x. r = Inr x \<longrightarrow> k = n \<and> snd x = start + int n * C))"
proof (induction n arbitrary: start chunks s)
  case 0
  then show ?case by (auto simp: io_return_def chunk_requests_def)
next
  case (Suc n)
  obtain r1 s1 where c: "readChunk start C s = (r1, s1)" by (cases "readChunk start C s")
  note t = readChunk_trace[OF c]
  show ?case
  proof (cases r1)
    case (Inl e)
    with Suc.prems c have rs: "r = Inl e" "s' = s1" by (auto simp: io_bind_def)
    from t(2) show ?thesis
    proof
      assume "requests_of (sent s1) = requests_of (sent s)"
      then have "requests_of (sent s') = requests_of (sent s) @
          chunk_requests (map (\<lambda>i. (start + int i * C, C)) [0..<0])"
        using rs by (simp add: chunk_requests_def)
      with rs t(1) show ?thesis by blast
    next
      assume "requests_of (sent s1) =
          requests_of (sent s) @ [(CMD_READ_BUFFER, i32le start @ i32le C)]"
      then have "requests_of (sent s') = requests_of (sent s) @
          chunk_requests (map (\<lambda>i. (start + int i * C, C)) [0..<Suc 0])"
        using rs by (simp add: chunk_requests_def)
      moreover have "Suc 0 \<le> Suc n" by simp
      ultimately show ?thesis using rs t(1) by blast
    qed
  next
    case (Inr chunk)
    with Suc.prems c have run: "readChunks n C (start + C) (chunks @ [chunk]) s1 = (r, s')"
      by (auto simp: io_bind_def)
    from Suc.IH[OF run] obtain k where k: "k \<le> n" "tcp s' = tcp s1"
      "requests_of (sent s') = requests_of (sent s1) @
          chunk_requests (map (\<lambda>i. (start + C + int i * C, C)) [0..<k])"
      "\<forall>x. r = Inr x \<longrightarrow> k = n \<and> snd x = start + C + int n * C" by blast
    have s1: "requests_of (sent s1) =
        requests_of (sent s) @ [(CMD_READ_BUFFER, i32le start @ i32le C)]"
      using t(3) Inr by blast
    have a: "requests_of (sent s') = requests_of (sent s) @
        chunk_requests (map (\<lambda>i. (start + int i * C, C)) [0..<Suc k])"
      by (simp only: k(3) s1 chunk_requests_Cons) simp
    have b: "\<forall>x. r = Inr x \<longrightarrow> Suc k = Suc n \<and> snd x = start + int (Suc n) * C"
      using k(4) by (auto simp: algebra_simps)
    have "Suc k \<le> Suc n" using k(1) by simp
    with a b k(2) t(1) show ?thesis by (intro conjI exI[of _ "Suc k"]) simp_all
  qed
qed

lemma chunk_plan_requests:
  assumes "0 < C" "0 \<le> N"
  shows "chunk_requests (chunk_plan N C) =
     chunk_requests (map (\<lambda>i. (0 + int i * C, C)) [0..<nat (N div C)]) @
     (if N mod C \<noteq> 0 then [(CMD_READ_BUFFER, i32le (0 + int (nat (N div C)) * C) @ i32le (N mod C))]
      else [])"
proof -
  have "0 \<le> N div C" using assms by (simp add: pos_imp_zdiv_nonneg_iff)
  then show ?thesis by (simp add: chunk_plan_def chunk_requests_def)
qed

lemma chunk_plan_length:
  assumes "0 < C" "0 \<le> N"
  shows "length (chunk_plan N C) = nat (N div C) + (if N mod C \<noteq> 0 then 1 else 0)"
  by (simp add: chunk_plan_def)

lemma take_chunk_prefix:
  assumes "0 < C" "0 \<le> N" "k \<le> nat (N div C)"
  shows "chunk_requests (map (\<lambda>i. (0 + int i * C, C)) [0..<k]) = take k (chunk_requests (chunk_plan N C))"
proof -
  have "take k (chunk_requests (map (\<lambda>i. (0 + int i * C, C)) [0..<nat (N div C)])) =
        chunk_requests (map (\<lambda>i. (0 + int i * C, C)) [0..<k])"
    using assms(3) by (simp add: chunk_requests_def take_map min_def)
  moreover have "length (chunk_requests (map (\<lambda>i. (0 + int i * C, C)) [0..<nat (N div C)])) = nat (N div C)"
    by (simp add: chunk_requests_def)
  ultimately show ?thesis
    using assms by (simp add: chunk_plan_requests)
qed

lemma readWithBuffer_shape:
  assumes args: "prepare_args command fct ext = Inr args"
    and prep: "sendCommand CMD_PREPARE_BUFFER args 1024 s = (Inr prep, s1)"
    and ok: "r_status prep" "r_code prep \<noteq> CMD_DATA"
    and N: "readUInt32LE (r_data prep) 1 = Inr N"
    and run: "readWithBuffer command fct ext s = (r, s')"
  shows "(\<exists>e k. r = Inl e \<and> k \<le> length (chunk_plan N (if tcp s then 0xffc0 else 16384)) \<and>
            requests_of (sent s') = requests_of (sent s1) @
              take k (chunk_requests (chunk_plan N (if tcp s then 0xffc0 else 16384)))) \<or>
         ((\<forall>x. r = Inr x \<longrightarrow> bs_size x = N) \<and>
          requests_of (sent s') = requests_of (sent s1) @
            chunk_requests (chunk_plan N (if tcp s then 0xffc0 else 16384)) @ [(CMD_FREE_DATA, [])])"
proof -
  define C :: int where "C = (if tcp s then 0xffc0 else 16384)"
  have C: "0 < C" by (simp add: C_def)
  have N0: "0 \<le> N" using N by (auto simp: readUInt32LE_def split: if_splits)
  define n where "n = nat (N div C)"
  have nn: "int n = N div C" using C N0 by (simp add: n_def pos_imp_zdiv_nonneg_iff)
  have pk: "(N - N mod C) div C = N div C" using C by (simp add: minus_mod_eq_mult_div)
  define plan where "plan = chunk_plan N C"
  have plen: "length plan = n + (if N mod C \<noteq> 0 then 1 else 0)"
    unfolding plan_def n_def using C N0 by (rule chunk_plan_length)
  have preq: "chunk_requests plan =
     chunk_requests (map (\<lambda>i. (0 + int i * C, C)) [0..<n]) @
     (if N mod C \<noteq> 0 then [(CMD_READ_BUFFER, i32le (0 + int n * C) @ i32le (N mod C))] else [])"
    unfolding plan_def n_def using C N0 by (rule chunk_plan_requests)
  have tcp1: "tcp s1 = tcp s" using sendCommand_trace(1)[OF prep] .
  obtain r2 s2 where loop: "readChunks n C 0 [] s1 = (r2, s2)" by (cases "readChunks n C 0 [] s1")
  from readChunks_trace[OF loop] obtain k where k: "k \<le> n" "tcp s2 = tcp s1"
    "requests_of (sent s2) = requests_of (sent s1) @
       chunk_requests (map (\<lambda>i. (0 + int i * C, C)) [0..<k])"
    "\<forall>x. r2 = Inr x \<longrightarrow> k = n \<and> snd x = 0 + int n * C" by blast
  have unfold: "readWithBuffer command fct ext s =
     io_bind (readChunks n C 0 []) (\<lambda>(chunks, start).
       io_bind (if N mod C \<noteq> 0
                then io_bind (readChunk start (N mod C)) (\<lambda>chunk.
                       io_return (chunks @ [chunk], start + N mod C))
                else io_return (chunks, start)) (\<lambda>(chunks, start).
       io_bind (sendCommand CMD_FREE_DATA [] 8) (\<lambda>_.
         io_return \<lparr>bs_buffer = concat chunks, bs_size = start\<rparr>))) s1"
  proof (cases "tcp s")
    case True
    then have c: "C = 65472" by (simp add: C_def)
    show ?thesis
      unfolding n_def c
      using args prep ok N True pk
      by (simp add: readWithBuffer_def io_bind_def io_lift_def Let_def c)
  next
    case False
    then have c: "C = 16384" by (simp add: C_def)
    show ?thesis
      unfolding n_def c
      using args prep ok N False pk
      by (simp add: readWithBuffer_def io_bind_def io_lift_def Let_def c)
  qed
  show ?thesis
  proof (cases r2)
    case (Inl e)
    with run unfold loop have rs: "r = Inl e" "s' = s2" by (auto simp: io_bind_def)
    have "chunk_requests (map (\<lambda>i. (0 + int i * C, C)) [0..<k]) = take k (chunk_requests plan)"
      unfolding plan_def using C N0 k(1) unfolding n_def by (rule take_chunk_prefix)
    moreover have "k \<le> length plan" using k(1) plen by simp
    ultimately have "\<exists>e k. r = Inl e \<and> k \<le> length plan \<and>
        requests_of (sent s') = requests_of (sent s1) @ take k (chunk_requests plan)"
      using rs k(3) by auto
    then show ?thesis unfolding plan_def C_def by (rule disjI1)
  next
    case (Inr cs)
    obtain chunks start where cs: "cs = (chunks, start)" by (cases cs)
    from k(4) Inr cs have kn: "k = n" and st: "start = int n * C" by auto
    have s2: "requests_of (sent s2) = requests_of (sent s1) @
        chunk_requests (map (\<lambda>i. (0 + int i * C, C)) [0..<n])" using k(3) kn by simp
    show ?thesis
    proof (cases "N mod C \<noteq> 0")
      case True
      obtain r3 s3 where rem: "readChunk start (N mod C) s2 = (r3, s3)"
        by (cases "readChunk start (N mod C) s2")
      note t = readChunk_trace[OF rem]
      show ?thesis
      proof (cases r3)
        case (Inl e)
        with run unfold loop Inr cs True rem have rs: "r = Inl e" "s' = s3"
          by (auto simp: io_bind_def)
        from t(2) have "\<exists>j\<le>length plan. requests_of (sent s3) =
            requests_of (sent s1) @ take j (chunk_requests plan)"
        proof
          assume "requests_of (sent s3) = requests_of (sent s2)"
          moreover have "chunk_requests (map (\<lambda>i. (0 + int i * C, C)) [0..<n]) =
              take n (chunk_requests plan)"
            unfolding plan_def n_def using C N0 by (intro take_chunk_prefix) simp_all
          ultimately have "requests_of (sent s3) = requests_of (sent s1) @ take n (chunk_requests plan)"
            using s2 by simp
          moreover have "n \<le> length plan" using plen by simp
          ultimately show ?thesis by blast
        next
          assume "requests_of (sent s3) =
              requests_of (sent s2) @ [(CMD_READ_BUFFER, i32le start @ i32le (N mod C))]"
          then have "requests_of (sent s3) = requests_of (sent s1) @ chunk_requests plan"
            using s2 True st by (simp add: preq)
          then have "requests_of (sent s3) =
              requests_of (sent s1) @ take (length plan) (chunk_requests plan)"
            by (simp add: chunk_requests_def)
          then show ?thesis by blast
        qed
        with rs have "\<exists>e k. r = Inl e \<and> k \<le> length plan \<and>
            requests_of (sent s') = requests_of (sent s1) @ take k (chunk_requests plan)"
          by auto
        then show ?thesis unfolding plan_def C_def by (rule disjI1)
      next
        case (Inr chunk)
        have s3: "requests_of (sent s3) = requests_of (sent s1) @ chunk_requests plan"
          using t(3)[OF Inr] s2 True st by (simp add: preq)
        obtain r4 s4 where fr: "sendCommand CMD_FREE_DATA [] 8 s3 = (r4, s4)"
          by (cases "sendCommand CMD_FREE_DATA [] 8 s3")
        have rr: "(r, s') = (case r4 of Inl e \<Rightarrow> (Inl e, s4)
             | Inr _ \<Rightarrow> (Inr \<lparr>bs_buffer = concat (chunks @ [chunk]), bs_size = start + N mod C\<rparr>, s4))"
          using run unfold loop \<open>r2 = Inr cs\<close> cs True rem Inr fr
          by (auto simp: io_bind_def io_return_def split: sum.splits)
        have sz: "start + N mod C = N" using st nn by (simp add: mult.commute)
        from sendCommand_trace(2)[OF fr] show ?thesis
        proof
          assume "requests_of (sent s4) = requests_of (sent s3)"
          moreover have "\<exists>e. r4 = Inl e"
            using sendCommand_trace(3)[OF fr] calculation by (cases r4) auto
          ultimately have "\<exists>e k. r = Inl e \<and> k \<le> length plan \<and>
              requests_of (sent s') = requests_of (sent s1) @ take k (chunk_requests plan)"
            using rr s3 by (auto simp: chunk_requests_def intro!: exI[of _ "length plan"])
          then show ?thesis unfolding plan_def C_def by (rule disjI1)
        next
          assume "requests_of (sent s4) = requests_of (sent s3) @ [(CMD_FREE_DATA, [])]"
          then have "(\<forall>x. r = Inr x \<longrightarrow> bs_size x = N) \<and>
              requests_of (sent s') = requests_of (sent s1) @ chunk_requests plan @ [(CMD_FREE_DATA, [])]"
            using rr s3 sz by (auto split: sum.splits)
          then show ?thesis unfolding plan_def C_def by (rule disjI2)
        qed
      qed
    next
      case False
      have s3: "requests_of (sent s2) = requests_of (sent s1) @ chunk_requests plan"
        using s2 False by (simp add: preq)
      obtain r4 s4 where fr: "sendCommand CMD_FREE_DATA [] 8 s2 = (r4, s4)"
        by (cases "sendCommand CMD_FREE_DATA [] 8 s2")
      have rr: "(r, s') = (case r4 of Inl e \<Rightarrow> (Inl e, s4)
           | Inr _ \<Rightarrow> (Inr \<lparr>bs_buffer = concat chunks, bs_size = start\<rparr>, s4))"
        using run unfold loop \<open>r2 = Inr cs\<close> cs False fr
        by (auto simp: io_bind_def io_return_def split: sum.splits)
      have sz: "start = N" using st nn False C by (simp add: mult.commute mod_eq_0_iff_dvd)
      from sendCommand_trace(2)[OF fr] show ?thesis
      proof
        assume "requests_of (sent s4) = requests_of (sent s2)"
        moreover have "\<exists>e. r4 = Inl e"
          using sendCommand_trace(3)[OF fr] calculation by (cases r4) auto
        ultimately have "\<exists>e k. r = Inl e \<and> k \<le> length plan \<and>
            requests_of (sent s') = requests_of (sent s1) @ take k (chunk_requests plan)"
          using rr s3 by (auto simp: chunk_requests_def intro!: exI[of _ "length plan"])
        then show ?thesis unfolding plan_def C_def by (rule disjI1)
      next
        assume "requests_of (sent s4) = requests_of (sent s2) @ [(CMD_FREE_DATA, [])]"
        then have "(\<forall>x. r = Inr x \<longrightarrow> bs_size x = N) \<and>
            requests_of (sent s') = requests_of (sent s1) @ chunk_requests plan @ [(CMD_FREE_DATA, [])]"
          using rr s3 sz by (auto split: sum.splits)
        then show ?thesis unfolding plan_def C_def by (rule disjI2)
      qed
    qed
  qed
qed

lemma chunk_plan_ceil:
  assumes "0 < C" "0 \<le> N"
  shows "int (length (chunk_plan N C)) = (N + C - 1) div C"
proof -
  have q: "0 \<le> N div C" using assms by (simp add: pos_imp_zdiv_nonneg_iff)
  have r: "0 \<le> N mod C" "N mod C < C" using assms by simp_all
  have e: "N + C - 1 = (N mod C + C - 1) + (N div C) * C" by (simp add: algebra_simps)
  have c0: "C \<noteq> 0" using assms(1) by simp
  have "(N + C - 1) div C = ((N mod C + C - 1) + (N div C) * C) div C"
    by (subst e) (rule refl)
  also have "\<dots> = N div C + (N mod C + C - 1) div C"
    using c0 by (rule div_mult_self1)
  finally have "(N + C - 1) div C = (N mod C + C - 1) div C + N div C" by simp
  moreover have "(N mod C + C - 1) div C = (if N mod C \<noteq> 0 then 1 else 0)"
  proof (cases "N mod C = 0")
    case True
    then show ?thesis using assms(1) by (simp add: div_pos_pos_trivial)
  next
    case False
    have e2: "N mod C + C - 1 = (N mod C - 1) + 1 * C" by simp
    have c0: "C \<noteq> 0" using assms(1) by simp
    have "(N mod C + C - 1) div C = ((N mod C - 1) + 1 * C) div C"
      by (subst e2) (rule refl)
    also have "\<dots> = 1 + (N mod C - 1) div C" using c0 by (rule div_mult_self1)
    finally have "(N mod C + C - 1) div C = (N mod C - 1) div C + 1" by simp
    moreover have "(N mod C - 1) div C = 0" using False r by (simp add: div_pos_pos_trivial)
    ultimately show ?thesis using False by simp
  qed
  ultimately show ?thesis using q by (simp add: chunk_plan_def)
qed

lemma tiles_full_chunks:
  "0 < C \<Longrightarrow> tiles a (map (\<lambda>i. (a + int i * C, C)) [0..<n] @ rest) b
     \<longleftrightarrow> tiles (a + int n * C) rest b"
proof (induction n arbitrary: a)
  case 0
  then show ?case by simp
next
  case (Suc n)
  have "map (\<lambda>i. (a + int i * C, C)) [0..<Suc n] =
        (a, C) # map (\<lambda>i. (a + int (Suc i) * C, C)) [0..<n]"
    by (simp only: map_upt_Suc) simp
  moreover have "(\<lambda>i. (a + int (Suc i) * C, C)) = (\<lambda>i. ((a + C) + int i * C, C))"
    by (rule ext) (simp add: algebra_simps)
  ultimately have "tiles a (map (\<lambda>i. (a + int i * C, C)) [0..<Suc n] @ rest) b \<longleftrightarrow>
      tiles (a + C) (map (\<lambda>i. ((a + C) + int i * C, C)) [0..<n] @ rest) b"
    using Suc.prems by simp
  also have "\<dots> \<longleftrightarrow> tiles ((a + C) + int n * C) rest b" using Suc.prems by (rule Suc.IH)
  finally show ?case by (simp add: algebra_simps)
qed

lemma chunk_plan_tiles:
  assumes "0 < C" "0 \<le> N"
  shows "tiles 0 (chunk_plan N C) N"
proof -
  have q: "0 \<le> N div C" using assms by (simp add: pos_imp_zdiv_nonneg_iff)
  have m: "0 \<le> N mod C" using assms by simp
  have e: "chunk_plan N C = map (\<lambda>i. (0 + int i * C, C)) [0..<nat (N div C)] @
     (if N mod C \<noteq> 0 then [(N div C * C, N mod C)] else [])"
    by (simp add: chunk_plan_def)
  have "tiles (0 + int (nat (N div C)) * C)
      (if N mod C \<noteq> 0 then [(N div C * C, N mod C)] else []) N"
    using q m by (auto simp: mod_eq_0_iff_dvd le_less)
  then show ?thesis unfolding e using assms(1) by (simp only: tiles_full_chunks)
qed

lemma zk_send_command_trace:
  assumes "zk_send_command c p rs s = (r, s')"
  shows "requests_of (z_sent s') = requests_of (z_sent s) \<or>
         requests_of (z_sent s') = requests_of (z_sent s) @ [(c, p)]"
    and "\<And>x. r = Inr x \<Longrightarrow> requests_of (z_sent s') = requests_of (z_sent s) @ [(c, p)]"
  using assms
  by (auto simp: zk_send_command_def zk_send_udp_def zk_receive_udp_def io_bind_def Let_def
      requests_of_def
      split: if_splits sum.splits prod.splits list.splits net_event.splits)

lemma zk_recieve_chunk_sent:
  "zk_recieve_chunk s = (r, s') \<Longrightarrow> z_sent s' = z_sent s"
  by (auto simp: zk_recieve_chunk_def split: if_splits sum.splits prod.splits)

lemma zk_read_chunk_loop_trace:
  "zk_read_chunk_loop n start sz s = (r, s') \<Longrightarrow>
   \<exists>k\<le>n. requests_of (z_sent s') =
       requests_of (z_sent s) @ replicate k (CMD_READ_BUFFER, i32le start @ i32le sz) \<and>
     (\<forall>x. r = Inr x \<longrightarrow> 1 \<le> k)"
proof (induction n arbitrary: s)
  case 0
  then show ?case by (auto simp: io_throw_def)
next
  case (Suc n)
  let ?q = "(CMD_READ_BUFFER, i32le start @ i32le sz)"
  show ?case
  proof (cases "ebind (writeInt32LE start 0 (replicate 8 0)) (writeInt32LE sz 4)")
    case (Inl e)
    with Suc.prems have "r = Inl e" "s' = s" by (auto simp: io_throw_def)
    then have "requests_of (z_sent s') = requests_of (z_sent s) @ replicate 0 ?q \<and>
        (\<forall>x. r = Inr x \<longrightarrow> 1 \<le> (0::nat))" by simp
    then show ?thesis by blast
  next
    case (Inr cs)
    then have cs: "cs = i32le start @ i32le sz" by (rule chunk_args)
    obtain r1 s1 where snd: "zk_send_command CMD_READ_BUFFER cs (1024 + 8) s = (r1, s1)"
      by (cases "zk_send_command CMD_READ_BUFFER cs (1024 + 8) s")
    note t = zk_send_command_trace[OF snd]
    show ?thesis
    proof (cases r1)
      case (Inl e)
      with Suc.prems \<open>ebind _ _ = Inr cs\<close> snd have rs: "r = Inl e" "s' = s1"
        by (auto simp: io_bind_def)
      from t(1) show ?thesis
      proof
        assume "requests_of (z_sent s1) = requests_of (z_sent s)"
        with rs have "requests_of (z_sent s') = requests_of (z_sent s) @ replicate 0 ?q \<and>
            (\<forall>x. r = Inr x \<longrightarrow> 1 \<le> (0::nat))" by simp
        then show ?thesis by blast
      next
        assume "requests_of (z_sent s1) = requests_of (z_sent s) @ [(CMD_READ_BUFFER, cs)]"
        with rs cs have "requests_of (z_sent s') = requests_of (z_sent s) @ replicate (Suc 0) ?q \<and>
            (\<forall>x. r = Inr x \<longrightarrow> 1 \<le> Suc 0)" by simp
        moreover have "Suc 0 \<le> Suc n" by simp
        ultimately show ?thesis by blast
      qed
    next
      case (Inr res)
      have s1: "requests_of (z_sent s1) = requests_of (z_sent s) @ [?q]"
        using t(2)[OF Inr] cs by simp
      obtain r2 s2 where rc: "zk_recieve_chunk s1 = (r2, s2)" by (cases "zk_recieve_chunk s1")
      have s2: "requests_of (z_sent s2) = requests_of (z_sent s) @ [?q]"
        using zk_recieve_chunk_sent[OF rc] s1 by simp
      show ?thesis
      proof (cases r2)
        case (Inl e)
        with Suc.prems \<open>ebind _ _ = Inr cs\<close> snd \<open>r1 = Inr res\<close> rc have rs: "r = Inl e" "s' = s2"
          by (auto simp: io_bind_def)
        with s2 have "requests_of (z_sent s') = requests_of (z_sent s) @ replicate (Suc 0) ?q \<and>
            (\<forall>x. r = Inr x \<longrightarrow> 1 \<le> Suc 0)" by simp
        moreover have "Suc 0 \<le> Suc n" by simp
        ultimately show ?thesis by blast
      next
        case (Inr d)
        show ?thesis
        proof (cases d)
          case (Some b)
          with Suc.prems \<open>ebind _ _ = Inr cs\<close> snd \<open>r1 = Inr res\<close> rc Inr
          have rs: "s' = s2" by (auto simp: io_bind_def io_return_def)
          with s2 have "requests_of (z_sent s') = requests_of (z_sent s) @ replicate (Suc 0) ?q \<and>
              (\<forall>x. r = Inr x \<longrightarrow> 1 \<le> Suc 0)" by simp
          moreover have "Suc 0 \<le> Suc n" by simp
          ultimately show ?thesis by blast
        next
          case None
          with Suc.prems \<open>ebind _ _ = Inr cs\<close> snd \<open>r1 = Inr res\<close> rc Inr
          have run: "zk_read_chunk_loop n start sz s2 = (r, s')" by (auto simp: io_bind_def)
          from Suc.IH[OF run] obtain k where k: "k \<le> n"
            "requests_of (z_sent s') = requests_of (z_sent s2) @ replicate k ?q" by blast
          have "requests_of (z_sent s') = requests_of (z_sent s) @ replicate (Suc k) ?q"
            using k(2) s2 by (simp add: replicate_append_same)
          moreover have "Suc k \<le> Suc n" using k(1) by simp
          moreover have "\<forall>x. r = Inr x \<longrightarrow> 1 \<le> Suc k" by simp
          ultimately show ?thesis by blast
        qed
      qed
    qed
  qed
qed

lemma zk_read_chunk_trace:
  assumes "zk_read_chunk start sz s = (r, s')"
  shows "\<exists>k\<le>3. requests_of (z_sent s') =
       requests_of (z_sent s) @ replicate k (CMD_READ_BUFFER, i32le start @ i32le sz) \<and>
     (\<forall>x. r = Inr x \<longrightarrow> 1 \<le> k)"
  using assms unfolding zk_read_chunk_def by (rule zk_read_chunk_loop_trace)

lemma zk_read_chunks_trace:
  "zk_read_chunks n C start chunks s = (r, s') \<Longrightarrow>
   \<exists>new. requests_of (z_sent s') = requests_of (z_sent s) @ new \<and>
     (\<forall>q\<in>set new. fst q = CMD_READ_BUFFER) \<and>
     (\<forall>x. r = Inr x \<longrightarrow> snd x = start + int n * C \<and>
        (\<exists>ks. length ks = n \<and> (\<forall>k\<in>set ks. 1 \<le> k \<and> k \<le> 3) \<and>
           new = concat (map2 replicate ks
                   (chunk_requests (map (\<lambda>i. (start + int i * C, C)) [0..<n])))))"
proof (induction n arbitrary: start chunks s)
  case 0
  then have "r = Inr (chunks, start)" "s' = s" by (auto simp: io_return_def)
  then have "requests_of (z_sent s') = requests_of (z_sent s) @ [] \<and>
     (\<forall>q\<in>set []. fst q = CMD_READ_BUFFER) \<and>
     (\<forall>x. r = Inr x \<longrightarrow> snd x = start + int 0 * C \<and>
        (\<exists>ks. length ks = 0 \<and> (\<forall>k\<in>set ks. 1 \<le> k \<and> k \<le> 3) \<and>
           [] = concat (map2 replicate ks
                   (chunk_requests (map (\<lambda>i. (start + int i * C, C)) [0..<0])))))"
    by (auto simp: chunk_requests_def)
  then show ?case by blast
next
  case (Suc n)
  let ?q = "(CMD_READ_BUFFER, i32le start @ i32le C)"
  obtain r1 s1 where c: "zk_read_chunk start C s = (r1, s1)" by (cases "zk_read_chunk start C s")
  from zk_read_chunk_trace[OF c] obtain k1 where k1: "k1 \<le> 3"
    "requests_of (z_sent s1) = requests_of (z_sent s) @ replicate k1 ?q"
    "\<forall>x. r1 = Inr x \<longrightarrow> 1 \<le> k1" by blast
  show ?case
  proof (cases r1)
    case (Inl e)
    with Suc.prems c have rs: "r = Inl e" "s' = s1" by (auto simp: io_bind_def)
    have "requests_of (z_sent s') = requests_of (z_sent s) @ replicate k1 ?q \<and>
       (\<forall>q\<in>set (replicate k1 ?q). fst q = CMD_READ_BUFFER) \<and>
       (\<forall>x. r = Inr x \<longrightarrow> snd x = start + int (Suc n) * C \<and>
        (\<exists>ks. length ks = Suc n \<and> (\<forall>k\<in>set ks. 1 \<le> k \<and> k \<le> 3) \<and>
           replicate k1 ?q = concat (map2 replicate ks
                   (chunk_requests (map (\<lambda>i. (start + int i * C, C)) [0..<Suc n])))))"
      using rs k1(2) by auto
    then show ?thesis by blast
  next
    case (Inr chunk)
    with Suc.prems c have run: "zk_read_chunks n C (start + C) (chunks @ [chunk]) s1 = (r, s')"
      by (auto simp: io_bind_def)
    from Suc.IH[OF run] obtain new where new:
      "requests_of (z_sent s') = requests_of (z_sent s1) @ new"
      "\<forall>q\<in>set new. fst q = CMD_READ_BUFFER"
      "\<forall>x. r = Inr x \<longrightarrow> snd x = start + C + int n * C \<and>
        (\<exists>ks. length ks = n \<and> (\<forall>k\<in>set ks. 1 \<le> k \<and> k \<le> 3) \<and>
           new = concat (map2 replicate ks
                   (chunk_requests (map (\<lambda>i. (start + C + int i * C, C)) [0..<n]))))"
      by blast
    have k1pos: "1 \<le> k1" using k1(3) Inr by blast
    have a: "requests_of (z_sent s') = requests_of (z_sent s) @ (replicate k1 ?q @ new)"
      using new(1) k1(2) by simp
    have b: "\<forall>q\<in>set (replicate k1 ?q @ new). fst q = CMD_READ_BUFFER"
      using new(2) by auto
    have d: "\<forall>x. r = Inr x \<longrightarrow> snd x = start + int (Suc n) * C \<and>
        (\<exists>ks. length ks = Suc n \<and> (\<forall>k\<in>set ks. 1 \<le> k \<and> k \<le> 3) \<and>
           replicate k1 ?q @ new = concat (map2 replicate ks
                   (chunk_requests (map (\<lambda>i. (start + int i * C, C)) [0..<Suc n]))))"
    proof (intro allI impI)
      fix x assume x: "r = Inr x"
      from new(3) x obtain ks where ks: "snd x = start + C + int n * C" "length ks = n"
        "\<forall>k\<in>set ks. 1 \<le> k \<and> k \<le> 3"
        "new = concat (map2 replicate ks
                   (chunk_requests (map (\<lambda>i. (start + C + int i * C, C)) [0..<n])))" by blast
      have "length (k1 # ks) = Suc n" using ks(2) by simp
      moreover have "\<forall>k\<in>set (k1 # ks). 1 \<le> k \<and> k \<le> 3" using ks(3) k1(1) k1pos by simp
      moreover have "replicate k1 ?q @ new = concat (map2 replicate (k1 # ks)
                   (chunk_requests (map (\<lambda>i. (start + int i * C, C)) [0..<Suc n])))"
        by (simp only: chunk_requests_Cons ks(4)) simp
      moreover have "snd x = start + int (Suc n) * C" using ks(1) by (simp add: algebra_simps)
      ultimately show "snd x = start + int (Suc n) * C \<and>
        (\<exists>ks. length ks = Suc n \<and> (\<forall>k\<in>set ks. 1 \<le> k \<and> k \<le> 3) \<and>
           replicate k1 ?q @ new = concat (map2 replicate ks
                   (chunk_requests (map (\<lambda>i. (start + int i * C, C)) [0..<Suc n]))))"
        by blast
    qed
    from a b d show ?thesis by blast
  qed
qed

lemma zk_free_data_trace:
  assumes "zk_free_data s = (r, s')"
  shows "requests_of (z_sent s') = requests_of (z_sent s) \<and> (\<exists>e. r = Inl e) \<or>
         requests_of (z_sent s') = requests_of (z_sent s) @ [(CMD_FREE_DATA, [])]"
proof -
  obtain r1 s1 where c: "zk_send_command CMD_FREE_DATA [] 8 s = (r1, s1)"
    by (cases "zk_send_command CMD_FREE_DATA [] 8 s")
  note t = zk_send_command_trace[OF c]
  show ?thesis
  proof (cases r1)
    case (Inl e)
    with assms c have "r = Inl e" "s' = s1" by (auto simp: zk_free_data_def io_bind_def)
    with t(1) show ?thesis by auto
  next
    case (Inr x)
    with assms c have "s' = s1"
      by (auto simp: zk_free_data_def io_bind_def io_return_def io_throw_def split: if_splits)
    with t(2)[OF Inr] show ?thesis by simp
  qed
qed

lemma zk_read_with_buffer_shape:
  assumes args: "prepare_args command fct ext = Inr args"
    and prep: "zk_send_command CMD_PREPARE_BUFFER args 1024 s = (Inr cmd, s1)"
    and ok: "z_status cmd" "z_code cmd \<noteq> CMD_DATA"
    and N: "readUInt32LE (z_data s1) 1 = Inr N"
    and run: "zk_read_with_buffer command fct ext s = (r, s')"
  shows "\<exists>new. requests_of (z_sent s') = requests_of (z_sent s1) @ new \<and>
     ((\<exists>e. r = Inl e) \<and> (\<forall>q\<in>set new. fst q = CMD_READ_BUFFER) \<or>
      (\<exists>ks. length ks = length (chunk_plan N 16384) \<and> (\<forall>k\<in>set ks. 1 \<le> k \<and> k \<le> 3) \<and>
         new = concat (map2 replicate ks (chunk_requests (chunk_plan N 16384))) @
               [(CMD_FREE_DATA, [])]) \<and>
      (\<forall>x. r = Inr x \<longrightarrow> bs_size x = N))"
proof -
  define C :: int where "C = 16384"
  have C: "0 < C" by (simp add: C_def)
  have N0: "0 \<le> N" using N by (auto simp: readUInt32LE_def split: if_splits)
  define n where "n = nat (N div C)"
  have nn: "int n = N div C" using C N0 by (simp add: n_def pos_imp_zdiv_nonneg_iff)
  have pk: "(N - N mod 16384) div 16384 = N div 16384" by (simp add: minus_mod_eq_mult_div)
  define plan where "plan = chunk_plan N C"
  have plen: "length plan = n + (if N mod C \<noteq> 0 then 1 else 0)"
    unfolding plan_def n_def using C N0 by (rule chunk_plan_length)
  have preq: "chunk_requests plan =
     chunk_requests (map (\<lambda>i. (0 + int i * C, C)) [0..<n]) @
     (if N mod C \<noteq> 0 then [(CMD_READ_BUFFER, i32le (0 + int n * C) @ i32le (N mod C))] else [])"
    unfolding plan_def n_def using C N0 by (rule chunk_plan_requests)
  have lreq: "length (chunk_requests (map (\<lambda>i. (0 + int i * C, C)) [0..<n])) = n"
    by (simp add: chunk_requests_def)
  obtain r2 s2 where loop: "zk_read_chunks n C 0 [] s1 = (r2, s2)"
    by (cases "zk_read_chunks n C 0 [] s1")
  from zk_read_chunks_trace[OF loop] obtain new where new:
    "requests_of (z_sent s2) = requests_of (z_sent s1) @ new"
    "\<forall>q\<in>set new. fst q = CMD_READ_BUFFER"
    "\<forall>x. r2 = Inr x \<longrightarrow> snd x = 0 + int n * C \<and>
        (\<exists>ks. length ks = n \<and> (\<forall>k\<in>set ks. 1 \<le> k \<and> k \<le> 3) \<and>
           new = concat (map2 replicate ks
                   (chunk_requests (map (\<lambda>i. (0 + int i * C, C)) [0..<n]))))" by blast
  have unfold: "zk_read_with_buffer command fct ext s =
     io_bind (zk_read_chunks n C 0 []) (\<lambda>(chunks, start).
       io_bind (if N mod C \<noteq> 0
                then io_bind (zk_read_chunk start (N mod C)) (\<lambda>chunk.
                       io_return (chunks @ [chunk], start + N mod C))
                else io_return (chunks, start)) (\<lambda>(chunks, start).
       io_bind zk_free_data (\<lambda>_.
         io_return \<lparr>bs_buffer = concat chunks, bs_size = start\<rparr>))) s1"
    unfolding n_def C_def
    using args prep ok N pk
    by (simp add: zk_read_with_buffer_def io_bind_def Let_def)
  show ?thesis
  proof (cases r2)
    case (Inl e)
    with run unfold loop have rs: "r = Inl e" "s' = s2" by (auto simp: io_bind_def)
    with new(1,2) show ?thesis by blast
  next
    case (Inr cs)
    obtain chunks start where cs: "cs = (chunks, start)" by (cases cs)
    from new(3) Inr cs obtain ks where ks: "start = int n * C" "length ks = n"
      "\<forall>k\<in>set ks. 1 \<le> k \<and> k \<le> 3"
      "new = concat (map2 replicate ks
                   (chunk_requests (map (\<lambda>i. (0 + int i * C, C)) [0..<n])))" by auto
    \<comment> \<open>the remainder chunk\<close>
    obtain r3 s3 where rem: "(if N mod C \<noteq> 0
                then io_bind (zk_read_chunk start (N mod C)) (\<lambda>chunk.
                       io_return (chunks @ [chunk], start + N mod C))
                else io_return (chunks, start)) s2 = (r3, s3)"
      by (cases "(if N mod C \<noteq> 0
                then io_bind (zk_read_chunk start (N mod C)) (\<lambda>chunk.
                       io_return (chunks @ [chunk], start + N mod C))
                else io_return (chunks, start)) s2")
    have remshape: "\<exists>new2. requests_of (z_sent s3) = requests_of (z_sent s1) @ new2 \<and>
        ((\<exists>e. r3 = Inl e) \<and> (\<forall>q\<in>set new2. fst q = CMD_READ_BUFFER) \<or>
         (\<exists>y ks2. r3 = Inr y \<and> snd y = N \<and> length ks2 = length plan \<and>
            (\<forall>k\<in>set ks2. 1 \<le> k \<and> k \<le> 3) \<and>
            new2 = concat (map2 replicate ks2 (chunk_requests plan))))"
    proof (cases "N mod C \<noteq> 0")
      case False
      with rem have r3: "r3 = Inr (chunks, start)" "s3 = s2" by (auto simp: io_return_def)
      have sz: "start = N" using ks(1) nn False C by (simp add: mult.commute mod_eq_0_iff_dvd)
      have "new = concat (map2 replicate ks (chunk_requests plan))"
        using ks(4) False by (simp add: preq)
      moreover have "length ks = length plan" using ks(2) plen False by simp
      ultimately show ?thesis using r3 sz new(1) ks(3) by auto
    next
      case True
      let ?q = "(CMD_READ_BUFFER, i32le start @ i32le (N mod C))"
      obtain r4 s4 where c: "zk_read_chunk start (N mod C) s2 = (r4, s4)"
        by (cases "zk_read_chunk start (N mod C) s2")
      from zk_read_chunk_trace[OF c] obtain k1 where k1: "k1 \<le> 3"
        "requests_of (z_sent s4) = requests_of (z_sent s2) @ replicate k1 ?q"
        "\<forall>x. r4 = Inr x \<longrightarrow> 1 \<le> k1" by blast
      show ?thesis
      proof (cases r4)
        case (Inl e)
        with rem True c have "r3 = Inl e" "s3 = s4" by (auto simp: io_bind_def)
        moreover have "requests_of (z_sent s4) = requests_of (z_sent s1) @ (new @ replicate k1 ?q)"
          using k1(2) new(1) by simp
        moreover have "\<forall>q\<in>set (new @ replicate k1 ?q). fst q = CMD_READ_BUFFER"
          using new(2) by auto
        ultimately show ?thesis by blast
      next
        case (Inr chunk)
        with rem True c have r3: "r3 = Inr (chunks @ [chunk], start + N mod C)" "s3 = s4"
          by (auto simp: io_bind_def io_return_def)
        have k1pos: "1 \<le> k1" using k1(3) Inr by blast
        have sz: "start + N mod C = N" using ks(1) nn by (simp add: mult.commute)
        have e1: "new @ replicate k1 ?q =
            concat (map2 replicate (ks @ [k1]) (chunk_requests plan))"
          using ks(2,4) True ks(1) lreq by (simp add: preq)
        have e2: "length (ks @ [k1]) = length plan" using ks(2) plen True by simp
        have e3: "\<forall>k\<in>set (ks @ [k1]). 1 \<le> k \<and> k \<le> 3" using ks(3) k1(1) k1pos by simp
        have e4: "requests_of (z_sent s3) = requests_of (z_sent s1) @ (new @ replicate k1 ?q)"
          using k1(2) new(1) r3(2) by simp
        have e5: "r3 = Inr (chunks @ [chunk], N)" "snd (chunks @ [chunk], N) = N"
          using r3(1) sz by simp_all
        from e5 e2 e3 e1 have "\<exists>y ks2. r3 = Inr y \<and> snd y = N \<and> length ks2 = length plan \<and>
            (\<forall>k\<in>set ks2. 1 \<le> k \<and> k \<le> 3) \<and>
            new @ replicate k1 ?q = concat (map2 replicate ks2 (chunk_requests plan))"
          by blast
        with e4 show ?thesis by blast
      qed
    qed
    then obtain new2 where new2: "requests_of (z_sent s3) = requests_of (z_sent s1) @ new2"
      "(\<exists>e. r3 = Inl e) \<and> (\<forall>q\<in>set new2. fst q = CMD_READ_BUFFER) \<or>
         (\<exists>y ks2. r3 = Inr y \<and> snd y = N \<and> length ks2 = length plan \<and>
            (\<forall>k\<in>set ks2. 1 \<le> k \<and> k \<le> 3) \<and>
            new2 = concat (map2 replicate ks2 (chunk_requests plan)))" by blast
    from new2(2) show ?thesis
    proof
      assume f: "(\<exists>e. r3 = Inl e) \<and> (\<forall>q\<in>set new2. fst q = CMD_READ_BUFFER)"
      then obtain e where "r3 = Inl e" by blast
      with run unfold loop \<open>r2 = Inr cs\<close> cs rem have "r = Inl e" "s' = s3"
        by (auto simp: io_bind_def)
      with new2(1) f show ?thesis by blast
    next
      assume "\<exists>y ks2. r3 = Inr y \<and> snd y = N \<and> length ks2 = length plan \<and>
            (\<forall>k\<in>set ks2. 1 \<le> k \<and> k \<le> 3) \<and>
            new2 = concat (map2 replicate ks2 (chunk_requests plan))"
      then obtain y ks2 where y: "r3 = Inr y" "snd y = N" "length ks2 = length plan"
        "\<forall>k\<in>set ks2. 1 \<le> k \<and> k \<le> 3"
        "new2 = concat (map2 replicate ks2 (chunk_requests plan))" by blast
      obtain chunks2 where y2: "y = (chunks2, N)" using y(2) by (cases y) auto
      obtain r5 s5 where fr: "zk_free_data s3 = (r5, s5)" by (cases "zk_free_data s3")
      have rr: "(r, s') = (case r5 of Inl e \<Rightarrow> (Inl e, s5)
           | Inr _ \<Rightarrow> (Inr \<lparr>bs_buffer = concat chunks2, bs_size = N\<rparr>, s5))"
        using run unfold loop \<open>r2 = Inr cs\<close> cs rem y(1) y2 fr
        by (auto simp: io_bind_def io_return_def split: sum.splits)
      from zk_free_data_trace[OF fr] show ?thesis
      proof
        assume a: "requests_of (z_sent s5) = requests_of (z_sent s3) \<and> (\<exists>e. r5 = Inl e)"
        then obtain e where "r5 = Inl e" by blast
        with rr have "r = Inl e" "s' = s5" by auto
        moreover have "\<forall>q\<in>set new2. fst q = CMD_READ_BUFFER"
          using y(5) by (auto simp: chunk_requests_def dest!: set_zip_rightD)
        ultimately show ?thesis using a new2(1) by auto
      next
        assume a: "requests_of (z_sent s5) = requests_of (z_sent s3) @ [(CMD_FREE_DATA, [])]"
        have s': "s' = s5" using rr by (auto split: sum.splits)
        have "requests_of (z_sent s') = requests_of (z_sent s1) @ (new2 @ [(CMD_FREE_DATA, [])])"
          using a new2(1) s' by simp
        moreover have "\<forall>x. r = Inr x \<longrightarrow> bs_size x = N" using rr by (auto split: sum.splits)
        ultimately show ?thesis
          using y(3,4,5) unfolding plan_def C_def by blast
      qed
    qed
  qed
qed

end
